theory Spec2Isabelle
  imports
    Main
    "HOL-Library.Finite_Map"
    "HOL-Library.Sublist"
    "HOL-Library.Char_ord"
    "HOL-Library.List_Lexorder"
begin

section \<open>Event messages and the event processors\<close>

subsection \<open>Data model\<close>

text \<open>
  A value of an event is Go's \<^verbatim>\<open>interface{}\<close>: the processors only ask whether it is a
  string (\<^verbatim>\<open>v.(string)\<close>), so every other dynamic type is kept apart from strings
  and otherwise left alone.
\<close>

datatype scalar = VString string | VInt int | VBool bool | VOther string

text \<open>
  Modelled from the spec: the struct \<^verbatim>\<open>formatters.EventMsg\<close> is declared outside the
  files at hand; the spec gives it as
  \<^verbatim>\<open>{name, timestamp(ns), tags: map<string,string>, values: map<string,scalar|string>,
  deletes: ordered list<path>}\<close>, and the processors use exactly these fields.
  The timestamp is an \<^verbatim>\<open>int64\<close> that is only compared and copied, never computed with,
  so it is an integer here. A Go map is a finite map; a nil map and an empty map have
  the same entries, and the only operation that tells them apart (a write to a nil map)
  is guarded in \<^verbatim>\<open>mergeEvents\<close> by an allocation.
\<close>

record EventMsg =
  Name :: string
  Timestamp :: int
  Tags :: "(string, string) fmap"
  Values :: "(string, scalar) fmap"
  Deletes :: "string list"

text \<open>
  A batch is a \<^verbatim>\<open>[]*EventMsg\<close>: every entry is a pointer, \<open>None\<close> is the nil pointer.
  The entries of one batch are taken to be distinct objects, so that an update through one
  entry is not seen through another.
\<close>

type_synonym batch = "EventMsg option list"

text \<open>A fault of the Go runtime that ends the call.\<close>

datatype panic = NilPointerDereference | SliceBoundsOutOfRange | IndexOutOfRange

text \<open>
  A compiled regular expression is used through \<^verbatim>\<open>MatchString\<close> only: it is the
  predicate it decides.
\<close>

type_synonym regexp = "string \<Rightarrow> bool"

subsection \<open>The condition check\<close>

text \<open>
  \<^verbatim>\<open>CheckCondition\<close> marshals the event to JSON, unmarshals it into a generic map, runs
  the compiled query on it and looks at the first result. The query engine is an
  external library: a compiled query is what these steps yield for a given event.
\<close>

datatype jq_run =
    MarshalFails string
  | UnmarshalFails string
  | IterDone
  | YieldsError string
  | YieldsBool bool
  | YieldsOther string

type_synonym jq_code = "EventMsg option \<Rightarrow> jq_run"

definition CheckCondition :: "jq_code option \<Rightarrow> EventMsg option \<Rightarrow> string + bool" where
  "CheckCondition code e =
     (case code of
        None \<Rightarrow> Inr True
      | Some c \<Rightarrow>
          (case c e of
             MarshalFails err \<Rightarrow> Inl err
           | UnmarshalFails err \<Rightarrow> Inl err
           | IterDone \<Rightarrow> Inr False
           | YieldsError err \<Rightarrow> Inl err
           | YieldsBool b \<Rightarrow> Inr b
           | YieldsOther v \<Rightarrow> Inl (''unexpected condition return type: '' @ v)))"

subsection \<open>The drop processor\<close>

record drop =
  Condition :: string
  tagNames :: "regexp list"
  valueNames :: "regexp list"
  tags :: "regexp list"
  valuesR :: "regexp list"
  code :: "jq_code option"

text \<open>
  An inner loop of \<^verbatim>\<open>drop.drop\<close> tries the regular expressions of one list on one
  string and returns true at the first that matches.
\<close>

definition any_match :: "regexp list \<Rightarrow> string \<Rightarrow> bool" where
  "any_match res s \<longleftrightarrow> (\<exists>re \<in> set res. re s)"

text \<open>
  The two outer loops range over the entries of a map and return true at the first
  match: their outcome is whether some entry matches, whatever the order of the
  iteration. A value is tried against the value expressions only if it is a string.
\<close>

definition values_loop :: "drop \<Rightarrow> EventMsg \<Rightarrow> bool" where
  "values_loop d e =
     (\<exists>k \<in> fset (fmdom (Values e)).
        any_match (valueNames d) k \<or>
        (case fmlookup (Values e) k of
           Some (VString vs) \<Rightarrow> any_match (valuesR d) vs
         | _ \<Rightarrow> False))"

definition tags_loop :: "drop \<Rightarrow> EventMsg \<Rightarrow> bool" where
  "tags_loop d e =
     (\<exists>k \<in> fset (fmdom (Tags e)).
        any_match (tagNames d) k \<or>
        (case fmlookup (Tags e) k of
           Some v \<Rightarrow> any_match (tags d) v
         | None \<Rightarrow> False))"

text \<open>
  \<^verbatim>\<open>drop.drop\<close>: with a condition configured the condition alone decides (a failed
  check drops the event); without one the event pointer is dereferenced for the loops.
\<close>

definition drop_drop :: "drop \<Rightarrow> EventMsg option \<Rightarrow> panic + bool" where
  "drop_drop d e =
     (if Condition d \<noteq> [] then
        (case CheckCondition (code d) e of
           Inl err \<Rightarrow> Inr True
         | Inr ok \<Rightarrow> Inr ok)
      else
        (case e of
           None \<Rightarrow> Inl NilPointerDereference
         | Some ev \<Rightarrow>
             if values_loop d ev then Inr True
             else if tags_loop d ev then Inr True
             else Inr False))"

text \<open>
  \<^verbatim>\<open>drop.Apply\<close> compacts the kept entries to the front of the slice, clears the rest and
  returns the front: the result is the list of the kept entries, in order.
\<close>

fun drop_Apply :: "drop \<Rightarrow> batch \<Rightarrow> panic + batch" where
  "drop_Apply d [] = Inr []"
| "drop_Apply d (e # es) =
     (case drop_drop d e of
        Inl p \<Rightarrow> Inl p
      | Inr dropped \<Rightarrow>
          (case drop_Apply d es of
             Inl p \<Rightarrow> Inl p
           | Inr kept \<Rightarrow> Inr (if dropped then kept else e # kept)))"

subsection \<open>The merge processor\<close>

record merge =
  Always :: bool

text \<open>
  \<^verbatim>\<open>mergeEvents(e1, e2)\<close> updates \<open>e1\<close> in place; the first thing it does is read
  \<^verbatim>\<open>e1.Tags\<close>. Writing every entry of \<open>e2\<close>'s map into \<open>e1\<close>'s map gives the map
  that has \<open>e2\<close>'s entries and, elsewhere, \<open>e1\<close>'s.
\<close>

definition mergeEvents :: "EventMsg option \<Rightarrow> EventMsg option \<Rightarrow> panic + EventMsg" where
  "mergeEvents p1 p2 =
     (case p1 of
        None \<Rightarrow> Inl NilPointerDereference
      | Some e1 \<Rightarrow>
          (case p2 of
             None \<Rightarrow> Inl NilPointerDereference
           | Some e2 \<Rightarrow>
               Inr (e1\<lparr>Tags := Tags e1 ++\<^sub>f Tags e2,
                       Values := Values e1 ++\<^sub>f Values e2,
                       Deletes := Deletes e1 @ Deletes e2,
                       Timestamp := (if Timestamp e2 > Timestamp e1
                                     then Timestamp e2 else Timestamp e1)\<rparr>)))"

text \<open>
  The loop of the always mode, from the second entry on: \<open>first\<close> is \<^verbatim>\<open>es[0]\<close>, which
  the loop updates. (At index 0 the loop does nothing, nil or not.)
\<close>

fun always_loop :: "EventMsg option \<Rightarrow> batch \<Rightarrow> panic + EventMsg option" where
  "always_loop first [] = Inr first"
| "always_loop first (None # es) = always_loop first es"
| "always_loop first (Some e # es) =
     (case mergeEvents first (Some e) of
        Inl p \<Rightarrow> Inl p
      | Inr m \<Rightarrow> always_loop (Some m) es)"

text \<open>
  The loop of the by-timestamp mode: \<open>result\<close> is the slice built so far and
  \<open>timestamps\<close> maps a timestamp to its index in \<open>result\<close>.
\<close>

fun timestamp_loop ::
  "batch \<Rightarrow> (int \<rightharpoonup> nat) \<Rightarrow> batch \<Rightarrow> panic + batch" where
  "timestamp_loop result timestamps [] = Inr result"
| "timestamp_loop result timestamps (None # es) = timestamp_loop result timestamps es"
| "timestamp_loop result timestamps (Some e # es) =
     (case timestamps (Timestamp e) of
        Some idx \<Rightarrow>
          (if idx < length result then
             (case mergeEvents (result ! idx) (Some e) of
                Inl p \<Rightarrow> Inl p
              | Inr m \<Rightarrow> timestamp_loop (result[idx := Some m]) timestamps es)
           else Inl IndexOutOfRange)
      | None \<Rightarrow>
          timestamp_loop (result @ [Some e])
            (timestamps(Timestamp e \<mapsto> length result)) es)"

definition merge_Apply :: "merge \<Rightarrow> batch \<Rightarrow> panic + batch" where
  "merge_Apply p es =
     (case es of
        [] \<Rightarrow> Inr []
      | e0 # rest \<Rightarrow>
          if Always p then
            (case always_loop e0 rest of
               Inl q \<Rightarrow> Inl q
             | Inr first \<Rightarrow> Inr [first])
          else timestamp_loop [] Map.empty es)"

subsection \<open>The folding rules and the grouping, as the specification words them\<close>

text \<open>The entries of a batch that are not nil, in order.\<close>

fun nonnil :: "batch \<Rightarrow> EventMsg list" where
  "nonnil [] = []"
| "nonnil (None # es) = nonnil es"
| "nonnil (Some e # es) = e # nonnil es"

text \<open>
  The folding rules in the specification's words: union of tags and of values, the second
  event winning on a key both have; the delete paths of the first followed by those of
  the second; the larger timestamp.
\<close>

definition folded :: "EventMsg \<Rightarrow> EventMsg \<Rightarrow> EventMsg" where
  "folded e1 e2 =
     e1\<lparr>Tags := Tags e1 ++\<^sub>f Tags e2,
        Values := Values e1 ++\<^sub>f Values e2,
        Deletes := Deletes e1 @ Deletes e2,
        Timestamp := max (Timestamp e1) (Timestamp e2)\<rparr>"

text \<open>
  Grouping by timestamp in the specification's words: the first event of the batch is the
  first of its group, the later events with its timestamp are folded into it in batch
  order, and the events with another timestamp are grouped in the same way after it.
\<close>

fun by_timestamp :: "EventMsg list \<Rightarrow> EventMsg list" where
  "by_timestamp [] = []"
| "by_timestamp (e # es) =
     foldl folded e (filter (\<lambda>x. Timestamp x = Timestamp e) es)
       # by_timestamp (filter (\<lambda>x. Timestamp x \<noteq> Timestamp e) es)"

text \<open>
  One step of the loop, read off the slice alone: an event joins the entry that has its
  timestamp, or is appended. \<open>index_inv\<close> says that the map of the loop is the index of
  the slice's timestamps.
\<close>

fun absorb :: "EventMsg list \<Rightarrow> EventMsg \<Rightarrow> EventMsg list" where
  "absorb [] x = [x]"
| "absorb (r # rs) x =
     (if Timestamp r = Timestamp x then folded r x # rs else r # absorb rs x)"

definition index_inv :: "EventMsg list \<Rightarrow> (int \<rightharpoonup> nat) \<Rightarrow> bool" where
  "index_inv rs ts \<longleftrightarrow>
     (\<forall>t i. ts t = Some i \<longleftrightarrow> i < length rs \<and> Timestamp (rs ! i) = t)"

text \<open>
  The four criteria of the drop processor in the specification's words: an expression for
  tag names matches some tag key, one for tags matches some tag value, one for value names
  matches some value key, one for values matches some value that is a string.
\<close>

definition tag_name_matches :: "drop \<Rightarrow> EventMsg \<Rightarrow> bool" where
  "tag_name_matches d e \<longleftrightarrow> (\<exists>k \<in> fset (fmdom (Tags e)). any_match (tagNames d) k)"

definition tag_value_matches :: "drop \<Rightarrow> EventMsg \<Rightarrow> bool" where
  "tag_value_matches d e \<longleftrightarrow> (\<exists>v \<in> fset (fmran (Tags e)). any_match (tags d) v)"

definition value_name_matches :: "drop \<Rightarrow> EventMsg \<Rightarrow> bool" where
  "value_name_matches d e \<longleftrightarrow> (\<exists>k \<in> fset (fmdom (Values e)). any_match (valueNames d) k)"

definition value_string_matches :: "drop \<Rightarrow> EventMsg \<Rightarrow> bool" where
  "value_string_matches d e \<longleftrightarrow>
     (\<exists>v \<in> fset (fmran (Values e)).
        (case v of VString s \<Rightarrow> any_match (valuesR d) s | _ \<Rightarrow> False))"

subsection \<open>Concrete processors and events\<close>

text \<open>
  The expression \<^verbatim>\<open>^interface$\<close> matches exactly the string \<^verbatim>\<open>interface\<close>. The two
  compiled conditions stand for a query that yields false and for one that yields a
  number.
\<close>

definition re_interface :: regexp where
  "re_interface s \<longleftrightarrow> s = ''interface''"

definition cond_false :: jq_code where
  "cond_false e = YieldsBool False"

definition cond_not_bool :: jq_code where
  "cond_not_bool e = YieldsOther ''float64''"

text \<open>The event and the configuration of the specification's drop scenario.\<close>

definition ev_interface :: EventMsg where
  "ev_interface = \<lparr>Name = ''sub1'', Timestamp = 1,
     Tags = fmupd ''interface'' ''ethernet1/1'' fmempty,
     Values = fmupd ''counter'' (VInt 5) fmempty, Deletes = []\<rparr>"

definition drop_tag_names :: drop where
  "drop_tag_names = \<lparr>Condition = [], tagNames = [re_interface], valueNames = [],
     tags = [], valuesR = [], code = None\<rparr>"

text \<open>The same processor with a condition configured as well.\<close>

definition drop_cond_and_tag_names :: drop where
  "drop_cond_and_tag_names = drop_tag_names\<lparr>Condition := ''.values.counter > 10'',
     code := Some cond_false\<rparr>"

definition drop_cond_not_bool :: drop where
  "drop_cond_not_bool = drop_tag_names\<lparr>Condition := ''.values.counter'',
     tagNames := [], code := Some cond_not_bool\<rparr>"

text \<open>The three events of the specification's merge scenario, and the expected results.\<close>

definition ev_ts1_tags :: EventMsg where
  "ev_ts1_tags = \<lparr>Name = ''sub1'', Timestamp = 1,
     Tags = fmupd ''a'' ''1'' fmempty, Values = fmempty, Deletes = []\<rparr>"

definition ev_ts1_values :: EventMsg where
  "ev_ts1_values = \<lparr>Name = ''sub1'', Timestamp = 1,
     Tags = fmempty, Values = fmupd ''v'' (VInt 2) fmempty, Deletes = []\<rparr>"

definition ev_ts2_tags :: EventMsg where
  "ev_ts2_tags = \<lparr>Name = ''sub1'', Timestamp = 2,
     Tags = fmupd ''b'' ''3'' fmempty, Values = fmempty, Deletes = []\<rparr>"

definition ev_ts1_merged :: EventMsg where
  "ev_ts1_merged = \<lparr>Name = ''sub1'', Timestamp = 1,
     Tags = fmupd ''a'' ''1'' fmempty, Values = fmupd ''v'' (VInt 2) fmempty, Deletes = []\<rparr>"

definition ev_all_merged :: EventMsg where
  "ev_all_merged = \<lparr>Name = ''sub1'', Timestamp = 2,
     Tags = fmupd ''b'' ''3'' (fmupd ''a'' ''1'' fmempty),
     Values = fmupd ''v'' (VInt 2) fmempty, Deletes = []\<rparr>"

text \<open>An event that none of the expressions matches.\<close>

definition ev_plain :: EventMsg where
  "ev_plain = \<lparr>Name = ''sub1'', Timestamp = 3,
     Tags = fmupd ''source'' ''router1'' fmempty,
     Values = fmupd ''state'' (VString ''up'') fmempty, Deletes = []\<rparr>"

subsection \<open>The trigger processor\<close>

text \<open>
  A \<^verbatim>\<open>time.Time\<close> is a number of nanoseconds and a \<^verbatim>\<open>time.Duration\<close> a difference of
  two: \<^verbatim>\<open>t.Add(d)\<close> is a sum, \<^verbatim>\<open>After\<close> and \<^verbatim>\<open>Before\<close> are the strict orders. The two
  occurrence bounds are Go \<^verbatim>\<open>int\<close>s; the processor compares them with lengths and
  subtracts them from one, far from the ends of the 64-bit range, so they are integers
  here. The record keeps the configuration and the two fields the processor updates.
\<close>

record trigger =
  Condition_t :: string
  MinOccurrences :: int
  MaxOccurrences :: int
  Window :: int
  code_t :: "jq_code option"
  occurrencesTimes :: "int list"
  lastTrigger :: int

text \<open>The zero \<^verbatim>\<open>time.Time\<close> (January 1 of year 1), in nanoseconds before 1970.\<close>

definition zero_time :: int where
  "zero_time = - 62135596800 * 1000000000"

definition minute :: int where
  "minute = 60 * 1000000000"

definition setDefaults :: "trigger \<Rightarrow> string + trigger" where
  "setDefaults p =
     (let p1 = (if Condition_t p = [] then p\<lparr>Condition_t := ''any([true])''\<rparr> else p);
          p2 = (if MinOccurrences p1 \<le> 0 then p1\<lparr>MinOccurrences := 1\<rparr> else p1);
          p3 = (if MaxOccurrences p2 \<le> 0 then p2\<lparr>MaxOccurrences := 1\<rparr> else p2)
      in if MaxOccurrences p3 < MinOccurrences p3
         then Inl ''max-occurrences cannot be lower than min-occurrences''
         else Inr (if Window p3 \<le> 0 then p3\<lparr>Window := minute\<rparr> else p3))"

text \<open>
  \<^verbatim>\<open>evalOccurrencesWithinWindow\<close>: the stored times still inside the window, then the
  present one; the slice is cut to its last \<^verbatim>\<open>MaxOccurrences + 1\<close> entries when it is
  longer than \<^verbatim>\<open>MaxOccurrences\<close> (a slice expression, which faults when its lower bound
  is outside the slice); then the two tests. The result is the verdict and the
  processor as updated.
\<close>

definition evalOccurrencesWithinWindow :: "trigger \<Rightarrow> int \<Rightarrow> panic + (bool \<times> trigger)" where
  "evalOccurrencesWithinWindow p now =
     (let occurrencesInWindow = filter (\<lambda>t. t + Window p > now) (occurrencesTimes p);
          occ1 = occurrencesInWindow @ [now];
          n1 = int (length occ1);
          low = n1 - MaxOccurrences p - 1
      in if n1 > MaxOccurrences p \<and> (low < 0 \<or> low > n1) then Inl SliceBoundsOutOfRange
         else
           let occ2 = (if n1 > MaxOccurrences p then drop (nat low) occ1 else occ1);
               numOccurrences = int (length occ2);
               p' = p\<lparr>occurrencesTimes := occ2\<rparr>
           in if numOccurrences \<ge> MinOccurrences p \<and> numOccurrences \<le> MaxOccurrences p
              then Inr (True, p'\<lparr>lastTrigger := now\<rparr>)
              else if numOccurrences > MinOccurrences p \<and> lastTrigger p + Window p < now
              then Inr (True, p'\<lparr>lastTrigger := now\<rparr>)
              else Inr (False, p'))"

text \<open>
  The loop of \<^verbatim>\<open>trigger.Apply\<close>, with \<open>now\<close> read once before it. Running the actions
  (in the call or in a goroutine of its own) is recorded as the event being added to the
  list of the events that fired.
\<close>

fun trigger_loop :: "trigger \<Rightarrow> int \<Rightarrow> batch \<Rightarrow> panic + (trigger \<times> EventMsg list)" where
  "trigger_loop p now [] = Inr (p, [])"
| "trigger_loop p now (None # es) = trigger_loop p now es"
| "trigger_loop p now (Some e # es) =
     (case CheckCondition (code_t p) (Some e) of
        Inl err \<Rightarrow> trigger_loop p now es
      | Inr res \<Rightarrow>
          if res then
            (case evalOccurrencesWithinWindow p now of
               Inl q \<Rightarrow> Inl q
             | Inr (fire, p') \<Rightarrow>
                 (case trigger_loop p' now es of
                    Inl q \<Rightarrow> Inl q
                  | Inr (p'', fired) \<Rightarrow> Inr (p'', if fire then e # fired else fired)))
          else trigger_loop p now es)"

definition trigger_Apply ::
  "trigger \<Rightarrow> int \<Rightarrow> batch \<Rightarrow> panic + (batch \<times> trigger \<times> EventMsg list)" where
  "trigger_Apply p now es =
     (case trigger_loop p now es of
        Inl q \<Rightarrow> Inl q
      | Inr (p', fired) \<Rightarrow> Inr (es, p', fired))"

text \<open>
  A run of the processor: one call of \<^verbatim>\<open>Apply\<close> after the other, each with the instant
  that \<^verbatim>\<open>time.Now()\<close> returns in it and its batch. The result is the final processor
  and the events the actions ran for, in order.
\<close>

fun trigger_calls :: "trigger \<Rightarrow> (int \<times> batch) list \<Rightarrow> panic + (trigger \<times> EventMsg list)" where
  "trigger_calls p [] = Inr (p, [])"
| "trigger_calls p ((now, es) # cs) =
     (case trigger_Apply p now es of
        Inl q \<Rightarrow> Inl q
      | Inr (out, p', fired) \<Rightarrow>
          (case trigger_calls p' cs of
             Inl q \<Rightarrow> Inl q
           | Inr (p'', fired') \<Rightarrow> Inr (p'', fired @ fired')))"

subsection \<open>The trigger processor against the sliding window\<close>

text \<open>
  The occurrences of a run are the events, nil entries apart, on which the condition
  evaluates to true, each with the instant of its call.
\<close>

definition occurrences :: "jq_code option \<Rightarrow> (int \<times> batch) list \<Rightarrow> (int \<times> EventMsg) list" where
  "occurrences c cs =
     concat (map (\<lambda>(now, es).
       map (Pair now) (filter (\<lambda>e. CheckCondition c (Some e) = Inr True) (nonnil es))) cs)"

text \<open>
  The count in the window at an occurrence: the occurrences so far, this one included,
  that are less than the window before \<open>now\<close>.
\<close>

definition window_count :: "int \<Rightarrow> int list \<Rightarrow> int \<Rightarrow> int" where
  "window_count w hist now = int (length (filter (\<lambda>t. now < t + w) (hist @ [now])))"

text \<open>
  When the processor fires at an occurrence, given the instants \<open>hist\<close> of the earlier
  occurrences and the instant \<open>lt\<close> of the last firing: the count is within the bounds,
  or it is above the upper bound and the last firing is more than the window ago.
\<close>

definition fires_at :: "int \<Rightarrow> int \<Rightarrow> int \<Rightarrow> int list \<Rightarrow> int \<Rightarrow> int \<Rightarrow> bool" where
  "fires_at mn mx w hist lt now \<longleftrightarrow>
     mn \<le> window_count w hist now \<and> window_count w hist now \<le> mx
     \<or> mx < window_count w hist now \<and> lt + w < now"

fun fired_spec :: "int \<Rightarrow> int \<Rightarrow> int \<Rightarrow> int list \<Rightarrow> int \<Rightarrow> (int \<times> EventMsg) list \<Rightarrow> EventMsg list" where
  "fired_spec mn mx w hist lt [] = []"
| "fired_spec mn mx w hist lt ((now, e) # occs) =
     (if fires_at mn mx w hist lt now
      then e # fired_spec mn mx w (hist @ [now]) now occs
      else fired_spec mn mx w (hist @ [now]) lt occs)"

fun last_spec :: "int \<Rightarrow> int \<Rightarrow> int \<Rightarrow> int list \<Rightarrow> int \<Rightarrow> (int \<times> EventMsg) list \<Rightarrow> int" where
  "last_spec mn mx w hist lt [] = lt"
| "last_spec mn mx w hist lt ((now, e) # occs) =
     (if fires_at mn mx w hist lt now
      then last_spec mn mx w (hist @ [now]) now occs
      else last_spec mn mx w (hist @ [now]) lt occs)"

text \<open>
  What the stored instants have to do with the occurrences so far: they are the last of
  them, and what is left out is out of the window for good unless the store is full
  (one more than the upper bound).
\<close>

definition stored :: "trigger \<Rightarrow> int list \<Rightarrow> bool" where
  "stored p hist \<longleftrightarrow>
     sorted hist \<and>
     (\<exists>zs. hist = zs @ occurrencesTimes p \<and>
        (int (length (occurrencesTimes p)) = MaxOccurrences p + 1
         \<or> (\<forall>z \<in> set zs. \<exists>t \<in> set hist. z + Window p \<le> t)))"

text \<open>What a call leaves as it is.\<close>

definition same_config :: "trigger \<Rightarrow> trigger \<Rightarrow> bool" where
  "same_config p p' \<longleftrightarrow>
     MinOccurrences p' = MinOccurrences p \<and> MaxOccurrences p' = MaxOccurrences p
     \<and> Window p' = Window p \<and> code_t p' = code_t p"

text \<open>A condition that holds of every event, and a processor with both bounds at one
  and a window of ten seconds.\<close>

definition cond_true :: jq_code where
  "cond_true e = YieldsBool True"

definition trigger_once :: trigger where
  "trigger_once = \<lparr>Condition_t = ''any([true])'', MinOccurrences = 1, MaxOccurrences = 1,
     Window = 10000000000, code_t = Some cond_true, occurrencesTimes = [], lastTrigger = zero_time\<rparr>"

definition trigger_2_3 :: trigger where
  "trigger_2_3 = trigger_once\<lparr>MinOccurrences := 2, MaxOccurrences := 3\<rparr>"

text \<open>An instant of the year 2023 and a number of seconds, in nanoseconds.\<close>

definition t0 :: int where
  "t0 = 1700000000 * 1000000000"

definition seconds :: "int \<Rightarrow> int" where
  "seconds n = n * 1000000000"

section \<open>The HTTP API of the application\<close>

subsection \<open>Responses\<close>

text \<open>
  Modelled from the spec: the struct \<^verbatim>\<open>types.TargetConfig\<close> is declared outside the files at
  hand; the spec gives a target configuration an identity (a stable name), an address,
  credentials and an ordered list of tags, and the tests of the loaders use the fields
  \<^verbatim>\<open>Name\<close>, \<^verbatim>\<open>Address\<close> and \<^verbatim>\<open>Tags\<close>. The handler at hand assigns a \<^verbatim>\<open>*string\<close> to
  \<^verbatim>\<open>Password\<close>: a credential is a pointer to a string, \<open>None\<close> when it is nil.
\<close>

record TargetConfig =
  Name_tc :: string
  Address :: string
  Username :: "string option"
  Password :: "string option"
  Tags_tc :: "string list"

record clusterMember =
  Name_m :: string
  APIEndpoint :: string
  IsLeader :: bool
  NumberOfLockedTargets_m :: nat
  LockedTargets :: "string list"

record clusteringResponse =
  ClusterName_r :: string
  NumberOfLockedTargets :: nat
  Leader :: string
  Members :: "clusterMember list"

text \<open>
  What a handler hands to the JSON encoder: the value, before it is encoded. An
  \<^verbatim>\<open>APIErrors\<close> is encoded as \<^verbatim>\<open>{"errors":[...]}\<close>. A pointer to a target configuration is
  encoded as the configuration it points to.
\<close>

datatype body =
    JErrors "string list"
  | JTargets "(string, TargetConfig) fmap"
  | JTarget TargetConfig
  | JCluster clusteringResponse
  | JMembers "clusterMember list"

text \<open>
  An \<^verbatim>\<open>http.ResponseWriter\<close>: the status code, once \<^verbatim>\<open>WriteHeader\<close> or the first \<^verbatim>\<open>Write\<close> has
  set it, and what has been written. A \<^verbatim>\<open>Write\<close> before any \<^verbatim>\<open>WriteHeader\<close> sends the status
  200, a \<^verbatim>\<open>WriteHeader\<close> after the status is set changes nothing, and a handler that
  returns without either leaves the server to send 200.
\<close>

record response =
  status :: "nat option"
  written :: "body list"

definition new_writer :: response where
  "new_writer = \<lparr>status = None, written = []\<rparr>"

definition WriteHeader :: "nat \<Rightarrow> response \<Rightarrow> response" where
  "WriteHeader c w = (if status w = None then w\<lparr>status := Some c\<rparr> else w)"

definition Write :: "body \<Rightarrow> response \<Rightarrow> response" where
  "Write b w =
     w\<lparr>status := Some (case status w of None \<Rightarrow> 200 | Some c \<Rightarrow> c), written := written w @ [b]\<rparr>"

definition status_code :: "response \<Rightarrow> nat" where
  "status_code w = (case status w of None \<Rightarrow> 200 | Some c \<Rightarrow> c)"

text \<open>
  The recurring \<^verbatim>\<open>w.WriteHeader(code); json.NewEncoder(w).Encode(APIErrors{Errors: msgs})\<close>.
  Encoding a list of strings does not fail.
\<close>

definition error_response :: "nat \<Rightarrow> string list \<Rightarrow> response" where
  "error_response c msgs = Write (JErrors msgs) (WriteHeader c new_writer)"

subsection \<open>The application and its lock service\<close>

record Service =
  ID :: string
  Address_s :: string
  Tags_s :: "string list"

record clustering =
  ClusterName_c :: string

text \<open>
  The part of \<^verbatim>\<open>App\<close> the handlers use. \<^verbatim>\<open>Config.Clustering\<close> is a pointer, \<open>None\<close> when nil.
  \<^verbatim>\<open>Config.Targets\<close> maps a name to a pointer to a target configuration; the objects are
  in \<open>heap\<close>, and an address outside the heap stands for the nil pointer. The lock
  service (\<^verbatim>\<open>a.locker\<close>) is an interface to a coordination service: what its calls
  return is given with the application. A call returns an error message or a result.
  \<^verbatim>\<open>leaderKey\<close> and \<^verbatim>\<open>getInstanceToTargetsMapping\<close> are methods declared outside the files at
  hand: their results are given as well. \<open>json_error\<close> is the error of the JSON encoder
  on a value, if it has one, and \<open>quoted\<close> is the verb \<^verbatim>\<open>%q\<close> of \<^verbatim>\<open>fmt\<close>.
\<close>

record App =
  ClusterName :: string
  Clustering :: "clustering option"
  Targets :: "(string, nat) fmap"
  heap :: "(nat, TargetConfig) fmap"
  isLeader :: bool
  locker_List :: "string \<Rightarrow> string + (string, string) fmap"
  locker_GetServices :: "string \<Rightarrow> string list \<Rightarrow> string + Service list"
  locker_Unlock :: "string \<Rightarrow> string option"
  leaderKey :: string
  getInstanceToTargetsMapping :: "string + (string, string list) fmap"
  json_error :: "body \<Rightarrow> string option"
  quoted :: "string \<Rightarrow> string"

text \<open>
  What a handler sets going besides its response: the call \<^verbatim>\<open>locker.Unlock(key)\<close>, the
  goroutine that runs \<^verbatim>\<open>clusterRebalanceTargets\<close>, and the goroutine that moves the given
  targets away from an instance (with the identifier of its service).
\<close>

datatype action =
    Unlock string
  | Rebalance
  | Drain "string list" string string

subsection \<open>Strings and paths\<close>

definition TrimSuffix :: "string \<Rightarrow> string \<Rightarrow> string" where
  "TrimSuffix s suf = (if suffix suf s then take (length s - length suf) s else s)"

definition TrimPrefix :: "string \<Rightarrow> string \<Rightarrow> string" where
  "TrimPrefix s pre = (if prefix pre s then drop (length pre) s else s)"

text \<open>
  \<^verbatim>\<open>filepath.Base\<close>: the last element of a path, trailing separators apart; \<^verbatim>\<open>.\<close> for the
  empty path and the separator for a path of separators.
\<close>

definition strip_slashes :: "string \<Rightarrow> string" where
  "strip_slashes p = rev (dropWhile (\<lambda>c. c = CHR ''/'') (rev p))"

definition Base :: "string \<Rightarrow> string" where
  "Base p =
     (if p = [] then ''.''
      else if strip_slashes p = [] then ''/''
      else rev (takeWhile (\<lambda>c. c \<noteq> CHR ''/'') (rev (strip_slashes p))))"

subsection \<open>The leader-only operations\<close>

text \<open>
  \<^verbatim>\<open>getInstanceTargets\<close>: the targets whose lock is held by the instance, by the last
  element of the key of the lock, sorted. It reads the cluster name through
  \<^verbatim>\<open>Config.Clustering\<close>.
\<close>

definition getInstanceTargets :: "App \<Rightarrow> string \<Rightarrow> panic + (string + string list)" where
  "getInstanceTargets a instance =
     (case Clustering a of
        None \<Rightarrow> Inl NilPointerDereference
      | Some c \<Rightarrow>
          Inr (case locker_List a (''gnmic/'' @ ClusterName_c c @ ''/targets'') of
                 Inl err \<Rightarrow> Inl err
               | Inr locks \<Rightarrow>
                   Inr (sort (map Base
                     (filter (\<lambda>k. fmlookup locks k = Some instance)
                        (sorted_list_of_fset (fmdom locks)))))))"

definition handleClusteringLeaderDelete :: "App \<Rightarrow> response \<times> action list" where
  "handleClusteringLeaderDelete a =
     (if Clustering a = None then (new_writer, [])
      else if \<not> isLeader a then (error_response 400 [''not leader''], [])
      else
        (case locker_Unlock a (leaderKey a) of
           Some err \<Rightarrow> (error_response 500 [err], [Unlock (leaderKey a)])
         | None \<Rightarrow> (new_writer, [Unlock (leaderKey a)])))"

definition handleClusteringDrainInstance :: "App \<Rightarrow> string \<Rightarrow> panic + response \<times> action list" where
  "handleClusteringDrainInstance a inst =
     (if Clustering a = None then Inr (new_writer, [])
      else if \<not> isLeader a then Inr (error_response 400 [''not leader''], [])
      else if inst = [] then Inr (WriteHeader 400 new_writer, [])
      else
        (case locker_GetServices a (ClusterName a @ ''-gnmic-api'') [''instance-name='' @ inst] of
           Inl err \<Rightarrow> Inr (error_response 500 [err], [])
         | Inr services \<Rightarrow>
             if services = [] then Inr (error_response 400 [''unknown instance: '' @ inst], [])
             else
               (case getInstanceTargets a inst of
                  Inl q \<Rightarrow> Inl q
                | Inr (Inl err) \<Rightarrow> Inr (error_response 500 [err], [])
                | Inr (Inr targets) \<Rightarrow> Inr (new_writer, [Drain targets (ID (hd services)) inst]))))"

definition handleClusterRebalance :: "App \<Rightarrow> response \<times> action list" where
  "handleClusterRebalance a =
     (if Clustering a = None then (new_writer, [])
      else if \<not> isLeader a then (error_response 400 [''not leader''], [])
      else (new_writer, [Rebalance]))"

text \<open>An instance of a cluster that is not the leader; its lock service answers nothing.\<close>

definition app_follower :: App where
  "app_follower = \<lparr>ClusterName = ''cluster1'', Clustering = Some \<lparr>ClusterName_c = ''cluster1''\<rparr>,
     Targets = fmempty, heap = fmempty, isLeader = False,
     locker_List = (\<lambda>k. Inr fmempty), locker_GetServices = (\<lambda>n ts. Inr []),
     locker_Unlock = (\<lambda>k. None), leaderKey = ''gnmic/cluster1/leader'',
     getInstanceToTargetsMapping = Inr fmempty, json_error = (\<lambda>b. None), quoted = (\<lambda>s. s)\<rparr>"

subsection \<open>The views of the cluster\<close>

text \<open>
  \<^verbatim>\<open>getLeaderName\<close> lists the leader key; when the listing fails it returns the empty
  name and no error.
\<close>

definition getLeaderName :: "App \<Rightarrow> string + string" where
  "getLeaderName a =
     (case locker_List a (''gnmic/'' @ ClusterName a @ ''/leader'') of
        Inl err \<Rightarrow> Inr []
      | Inr leader \<Rightarrow>
          Inr (case fmlookup leader (''gnmic/'' @ ClusterName a @ ''/leader'') of
                 None \<Rightarrow> []
               | Some v \<Rightarrow> v))"

text \<open>The scheme of a member: that of the last tag \<^verbatim>\<open>protocol=...\<close>, or \<^verbatim>\<open>http\<close>.\<close>

definition scheme_of :: "string list \<Rightarrow> string" where
  "scheme_of ts =
     foldl (\<lambda>scheme t. if prefix ''protocol='' t then TrimPrefix t ''protocol='' @ ''://'' else scheme)
       ''http://'' ts"

text \<open>The targets of an instance in the mapping; a name that is not there has none.\<close>

definition locked_by :: "(string, string list) fmap \<Rightarrow> string \<Rightarrow> string list" where
  "locked_by instanceNodes name = (case fmlookup instanceNodes name of None \<Rightarrow> [] | Some ts \<Rightarrow> ts)"

text \<open>The body of the loops that fill in a member from a service.\<close>

definition member_of :: "string \<Rightarrow> (string, string list) fmap \<Rightarrow> Service \<Rightarrow> clusterMember" where
  "member_of leader instanceNodes s =
     \<lparr>Name_m = TrimSuffix (ID s) ''-api'',
      APIEndpoint = scheme_of (Tags_s s) @ Address_s s,
      IsLeader = (leader = TrimSuffix (ID s) ''-api''),
      NumberOfLockedTargets_m = length (locked_by instanceNodes (TrimSuffix (ID s) ''-api'')),
      LockedTargets = locked_by instanceNodes (TrimSuffix (ID s) ''-api'')\<rparr>"

text \<open>The end of the three handlers: \<^verbatim>\<open>json.Marshal\<close>, then the error response or the write.\<close>

definition marshal_write :: "App \<Rightarrow> body \<Rightarrow> response" where
  "marshal_write a b =
     (case json_error a b of
        Some err \<Rightarrow> error_response 500 [err]
      | None \<Rightarrow> Write b new_writer)"

text \<open>
  The three queries the views start with, in the order of the handlers: each handler
  returns at the first that gives an error.
\<close>

definition cluster_queries ::
  "App \<Rightarrow> response + (string \<times> Service list \<times> (string, string list) fmap)" where
  "cluster_queries a =
     (case getLeaderName a of
        Inl err \<Rightarrow> Inl (error_response 500 [err])
      | Inr leader \<Rightarrow>
          (case locker_GetServices a (ClusterName a @ ''-gnmic-api'') [] of
             Inl err \<Rightarrow> Inl (error_response 500 [err])
           | Inr services \<Rightarrow>
               (case getInstanceToTargetsMapping a of
                  Inl err \<Rightarrow> Inl (error_response 500 [err])
                | Inr instanceNodes \<Rightarrow> Inr (leader, services, instanceNodes))))"

definition handleClusteringGet :: "App \<Rightarrow> response" where
  "handleClusteringGet a =
     (if Clustering a = None then new_writer
      else
        (case cluster_queries a of
           Inl w \<Rightarrow> w
         | Inr (leader, services, instanceNodes) \<Rightarrow>
             marshal_write a (JCluster
               \<lparr>ClusterName_r = ClusterName a,
                NumberOfLockedTargets =
                  sum_list (map (\<lambda>k. length (locked_by instanceNodes k))
                    (sorted_list_of_fset (fmdom instanceNodes))),
                Leader = leader,
                Members = map (member_of leader instanceNodes) services\<rparr>)))"

definition handleClusteringMembersGet :: "App \<Rightarrow> response" where
  "handleClusteringMembersGet a =
     (if Clustering a = None then new_writer
      else
        (case cluster_queries a of
           Inl w \<Rightarrow> w
         | Inr (leader, services, instanceNodes) \<Rightarrow>
             marshal_write a (JMembers (map (member_of leader instanceNodes) services))))"

text \<open>
  The view of the leader is a list of one member: the first service of the leader's
  name, or a member with no field set.
\<close>

definition handleClusteringLeaderGet :: "App \<Rightarrow> response" where
  "handleClusteringLeaderGet a =
     (if Clustering a = None then new_writer
      else
        (case cluster_queries a of
           Inl w \<Rightarrow> w
         | Inr (leader, services, instanceNodes) \<Rightarrow>
             marshal_write a (JMembers
               [case find (\<lambda>s. TrimSuffix (ID s) ''-api'' = leader) services of
                  None \<Rightarrow> \<lparr>Name_m = [], APIEndpoint = [], IsLeader = False,
                            NumberOfLockedTargets_m = 0, LockedTargets = []\<rparr>
                | Some s \<Rightarrow> (member_of leader instanceNodes s)\<lparr>IsLeader := True\<rparr>])))"

text \<open>
  A cluster of two instances, \<^verbatim>\<open>gnmic1\<close> the leader, and three locked targets; and the same
  cluster at a moment when the listing of the services fails.
\<close>

definition app_cluster :: App where
  "app_cluster = app_follower\<lparr>
     locker_List := (\<lambda>k. Inr (fmupd ''gnmic/cluster1/leader'' ''gnmic1'' fmempty)),
     locker_GetServices := (\<lambda>n ts. Inr
       [\<lparr>ID = ''gnmic1-api'', Address_s = ''gnmic1:7890'', Tags_s = [''protocol=https'']\<rparr>,
        \<lparr>ID = ''gnmic2-api'', Address_s = ''gnmic2:7890'', Tags_s = []\<rparr>]),
     getInstanceToTargetsMapping := Inr (fmupd ''gnmic1'' [''leaf1'', ''leaf2'']
       (fmupd ''gnmic2'' [''spine1''] fmempty))\<rparr>"

definition app_services_down :: App where
  "app_services_down = app_cluster\<lparr>
     locker_GetServices := (\<lambda>n ts. Inl ''connection refused'')\<rparr>"

definition app_locks_down :: App where
  "app_locks_down = app_cluster\<lparr>getInstanceToTargetsMapping := Inl ''connection refused''\<rparr>"


section \<open>Properties\<close>

subsection \<open>The merge processor\<close>

lemma mergeEvents_folded: "mergeEvents (Some e1) (Some e2) = Inr (folded e1 e2)"
  by (simp add: mergeEvents_def folded_def max_def)

lemma Timestamp_folded_same:
  "Timestamp e2 = Timestamp e1 \<Longrightarrow> Timestamp (folded e1 e2) = Timestamp e1"
  by (simp add: folded_def)

lemma absorb_hit:
  "index_inv rs ts \<Longrightarrow> ts (Timestamp x) = Some idx \<Longrightarrow>
   absorb rs x = rs[idx := folded (rs ! idx) x]"
proof (induction rs arbitrary: ts idx)
  case Nil
  then show ?case by (simp add: index_inv_def)
next
  case (Cons r rs)
  show ?case
  proof (cases "Timestamp r = Timestamp x")
    case True
    with Cons.prems have "ts (Timestamp x) = Some 0"
      by (simp add: index_inv_def)
    with Cons.prems have "idx = 0" by simp
    with True show ?thesis by simp
  next
    case False
    from Cons.prems have ix: "idx < length (r # rs)" "Timestamp ((r # rs) ! idx) = Timestamp x"
      by (simp_all add: index_inv_def)
    with False obtain j where j: "idx = Suc j" by (cases idx) auto
    define ts' where "ts' = (\<lambda>t. if t = Timestamp r then None else map_option (\<lambda>i. i - 1) (ts t))"
    have inv': "index_inv rs ts'"
      unfolding index_inv_def
    proof (intro allI)
      fix t i
      have a: "ts t = Some (Suc i) \<longleftrightarrow> i < length rs \<and> Timestamp (rs ! i) = t"
        using Cons.prems(1) by (simp add: index_inv_def)
      have b: "ts (Timestamp r) = Some 0"
        using Cons.prems(1) by (simp add: index_inv_def)
      have c: "ts t = Some 0 \<longleftrightarrow> Timestamp r = t"
        using Cons.prems(1) by (simp add: index_inv_def)
      show "ts' t = Some i \<longleftrightarrow> i < length rs \<and> Timestamp (rs ! i) = t"
      proof (cases "t = Timestamp r")
        case True
        have "\<not> (i < length rs \<and> Timestamp (rs ! i) = t)"
          using a b True by auto
        then show ?thesis using True by (simp add: ts'_def)
      next
        case False
        have "ts' t = Some i \<longleftrightarrow> ts t = Some (Suc i)"
        proof (cases "ts t")
          case None
          then show ?thesis using False by (simp add: ts'_def)
        next
          case (Some k)
          with c False have "k \<noteq> 0" by auto
          then show ?thesis using Some False by (auto simp: ts'_def)
        qed
        then show ?thesis using a by simp
      qed
    qed
    have "ts' (Timestamp x) = Some j"
      using Cons.prems(2) j False by (simp add: ts'_def)
    from Cons.IH[OF inv' this] False j show ?thesis by simp
  qed
qed

lemma absorb_miss:
  "Timestamp x \<notin> Timestamp ` set rs \<Longrightarrow> absorb rs x = rs @ [x]"
  by (induction rs) auto

lemma index_inv_miss:
  assumes "index_inv rs ts" and "ts (Timestamp x) = None"
  shows "Timestamp x \<notin> Timestamp ` set rs"
    and "index_inv (rs @ [x]) (ts(Timestamp x \<mapsto> length rs))"
proof -
  have none: "Timestamp (rs ! i) \<noteq> Timestamp x" if "i < length rs" for i
  proof
    assume "Timestamp (rs ! i) = Timestamp x"
    with that assms(1) have "ts (Timestamp x) = Some i"
      unfolding index_inv_def by blast
    with assms(2) show False by simp
  qed
  show "Timestamp x \<notin> Timestamp ` set rs"
  proof
    assume "Timestamp x \<in> Timestamp ` set rs"
    then obtain i where "i < length rs" "Timestamp (rs ! i) = Timestamp x"
      by (metis imageE in_set_conv_nth)
    with none show False by blast
  qed
  show "index_inv (rs @ [x]) (ts(Timestamp x \<mapsto> length rs))"
    unfolding index_inv_def
  proof (intro allI)
    fix t i
    have a: "ts t = Some i \<longleftrightarrow> i < length rs \<and> Timestamp (rs ! i) = t"
      using assms(1) by (simp add: index_inv_def)
    show "(ts(Timestamp x \<mapsto> length rs)) t = Some i \<longleftrightarrow>
          i < length (rs @ [x]) \<and> Timestamp ((rs @ [x]) ! i) = t"
    proof (cases "t = Timestamp x")
      case True
      then show ?thesis using none by (auto simp: nth_append)
    next
      case False
      then show ?thesis using a by (auto simp: nth_append)
    qed
  qed
qed

lemma index_inv_hit:
  assumes "index_inv rs ts" and "ts (Timestamp x) = Some idx"
  shows "idx < length rs"
    and "index_inv (rs[idx := folded (rs ! idx) x]) ts"
proof -
  from assms show idx: "idx < length rs" by (simp add: index_inv_def)
  from assms have same: "Timestamp (rs ! idx) = Timestamp x" by (simp add: index_inv_def)
  have "Timestamp ((rs[idx := folded (rs ! idx) x]) ! i) = Timestamp (rs ! i)"
    if "i < length rs" for i
    using that same by (cases "i = idx") (simp_all add: Timestamp_folded_same)
  then show "index_inv (rs[idx := folded (rs ! idx) x]) ts"
    using assms(1) unfolding index_inv_def by auto
qed

lemma timestamp_loop_absorb:
  "index_inv rs ts \<Longrightarrow>
   timestamp_loop (map Some rs) ts es = Inr (map Some (foldl absorb rs (nonnil es)))"
proof (induction es arbitrary: rs ts)
  case Nil
  then show ?case by simp
next
  case (Cons p es)
  show ?case
  proof (cases p)
    case None
    with Cons show ?thesis by simp
  next
    case (Some x)
    show ?thesis
    proof (cases "ts (Timestamp x)")
      case None
      note miss = index_inv_miss[OF Cons.prems None]
      have "timestamp_loop (map Some rs) ts (p # es)
            = timestamp_loop (map Some (rs @ [x])) (ts(Timestamp x \<mapsto> length rs)) es"
        using Some None by simp
      also have "\<dots> = Inr (map Some (foldl absorb (rs @ [x]) (nonnil es)))"
        by (rule Cons.IH[OF miss(2)])
      finally show ?thesis using Some absorb_miss[OF miss(1)] by simp
    next
      case (Some idx)
      note hit = index_inv_hit[OF Cons.prems Some]
      have "timestamp_loop (map Some rs) ts (p # es)
            = timestamp_loop (map Some (rs[idx := folded (rs ! idx) x])) ts es"
        using \<open>p = Some x\<close> Some hit(1) by (simp add: mergeEvents_folded map_update)
      also have "\<dots> = Inr (map Some (foldl absorb (rs[idx := folded (rs ! idx) x]) (nonnil es)))"
        by (rule Cons.IH[OF hit(2)])
      finally show ?thesis
        using \<open>p = Some x\<close> absorb_hit[OF Cons.prems Some] by simp
    qed
  qed
qed

lemma absorb_timestamps: "map Timestamp (absorb rs x) =
   (if Timestamp x \<in> Timestamp ` set rs then map Timestamp rs else map Timestamp rs @ [Timestamp x])"
  by (induction rs) (auto simp: Timestamp_folded_same)

lemma absorb_hit_map:
  "distinct (map Timestamp rs) \<Longrightarrow> Timestamp x \<in> Timestamp ` set rs \<Longrightarrow>
   absorb rs x = map (\<lambda>r. if Timestamp r = Timestamp x then folded r x else r) rs"
proof (induction rs)
  case Nil
  then show ?case by simp
next
  case (Cons r rs)
  show ?case
  proof (cases "Timestamp r = Timestamp x")
    case True
    with Cons.prems(1) have "\<forall>q\<in>set rs. Timestamp q \<noteq> Timestamp x"
      by (auto simp: image_iff)
    then have "map (\<lambda>r. if Timestamp r = Timestamp x then folded r x else r) rs = rs"
      by (simp add: map_idI)
    with True show ?thesis by simp
  next
    case False
    with Cons show ?thesis by auto
  qed
qed

lemma foldl_absorb_groups:
  "distinct (map Timestamp rs) \<Longrightarrow>
   foldl absorb rs xs =
     map (\<lambda>r. foldl folded r (filter (\<lambda>x. Timestamp x = Timestamp r) xs)) rs
       @ by_timestamp (filter (\<lambda>x. Timestamp x \<notin> Timestamp ` set rs) xs)"
proof (induction xs arbitrary: rs)
  case Nil
  then show ?case by (simp add: map_idI)
next
  case (Cons x xs)
  show ?case
  proof (cases "Timestamp x \<in> Timestamp ` set rs")
    case True
    let ?rs' = "map (\<lambda>r. if Timestamp r = Timestamp x then folded r x else r) rs"
    have abs: "absorb rs x = ?rs'" by (rule absorb_hit_map[OF Cons.prems True])
    have ts: "map Timestamp ?rs' = map Timestamp rs"
      by (auto simp: Timestamp_folded_same)
    then have img: "Timestamp ` set ?rs' = Timestamp ` set rs"
      by (metis list.set_map)
    have d: "distinct (map Timestamp ?rs')" using Cons.prems by (simp only: ts)
    have "foldl absorb rs (x # xs) = foldl absorb ?rs' xs" using abs by simp
    also have "\<dots> = map (\<lambda>r. foldl folded r (filter (\<lambda>y. Timestamp y = Timestamp r) xs)) ?rs'
       @ by_timestamp (filter (\<lambda>y. Timestamp y \<notin> Timestamp ` set ?rs') xs)"
      by (rule Cons.IH[OF d])
    also have "map (\<lambda>r. foldl folded r (filter (\<lambda>y. Timestamp y = Timestamp r) xs)) ?rs'
        = map (\<lambda>r. foldl folded r (filter (\<lambda>y. Timestamp y = Timestamp r) (x # xs))) rs"
      by (auto simp: Timestamp_folded_same)
    finally show ?thesis using True img by simp
  next
    case False
    have abs: "absorb rs x = rs @ [x]" by (rule absorb_miss[OF False])
    have d: "distinct (map Timestamp (rs @ [x]))" using Cons.prems False by auto
    have f1: "filter (\<lambda>y. Timestamp y = Timestamp x) (filter (\<lambda>y. Timestamp y \<notin> Timestamp ` set rs) xs)
          = filter (\<lambda>y. Timestamp y = Timestamp x) xs"
    proof -
      have "(Timestamp y \<notin> Timestamp ` set rs \<and> Timestamp y = Timestamp x)
            = (Timestamp y = Timestamp x)" for y :: EventMsg
        using False by metis
      then show ?thesis by simp
    qed
    have f2: "filter (\<lambda>y. Timestamp y \<noteq> Timestamp x) (filter (\<lambda>y. Timestamp y \<notin> Timestamp ` set rs) xs)
          = filter (\<lambda>y. Timestamp y \<notin> Timestamp ` set (rs @ [x])) xs"
      by (auto simp: filter_filter intro!: filter_cong)
    have f3: "map (\<lambda>r. foldl folded r (filter (\<lambda>y. Timestamp y = Timestamp r) (x # xs))) rs
          = map (\<lambda>r. foldl folded r (filter (\<lambda>y. Timestamp y = Timestamp r) xs)) rs"
      using False by (auto simp: image_iff)
    have "foldl absorb rs (x # xs) = foldl absorb (rs @ [x]) xs" using abs by simp
    also have "\<dots> = map (\<lambda>r. foldl folded r (filter (\<lambda>y. Timestamp y = Timestamp r) xs)) (rs @ [x])
       @ by_timestamp (filter (\<lambda>y. Timestamp y \<notin> Timestamp ` set (rs @ [x])) xs)"
      by (rule Cons.IH[OF d])
    finally show ?thesis using False f1 f2 f3 by simp
  qed
qed

lemma always_loop_foldl:
  "always_loop (Some e0) es = Inr (Some (foldl folded e0 (nonnil es)))"
proof (induction es arbitrary: e0)
  case Nil
  then show ?case by simp
next
  case (Cons p es)
  then show ?case by (cases p) (simp_all add: mergeEvents_folded)
qed

subsection \<open>The drop processor\<close>

lemma fmran_iff: "v |\<in>| fmran m \<longleftrightarrow> (\<exists>k. fmlookup m k = Some v)"
  by (auto intro: fmranI)

lemma values_loop_criteria:
  "values_loop d e \<longleftrightarrow> value_name_matches d e \<or> value_string_matches d e"
proof
  assume "values_loop d e"
  then obtain k where k: "k |\<in>| fmdom (Values e)"
    and m: "any_match (valueNames d) k \<or>
        (case fmlookup (Values e) k of
           Some (VString vs) \<Rightarrow> any_match (valuesR d) vs | _ \<Rightarrow> False)"
    unfolding values_loop_def by blast
  from m show "value_name_matches d e \<or> value_string_matches d e"
  proof
    assume "any_match (valueNames d) k"
    with k show ?thesis unfolding value_name_matches_def by blast
  next
    assume a: "case fmlookup (Values e) k of
           Some (VString vs) \<Rightarrow> any_match (valuesR d) vs | _ \<Rightarrow> False"
    then obtain v where v: "fmlookup (Values e) k = Some v"
      by (cases "fmlookup (Values e) k") simp_all
    then have "v |\<in>| fmran (Values e)" by (rule fmranI)
    moreover have "case v of VString s \<Rightarrow> any_match (valuesR d) s | _ \<Rightarrow> False"
      using a v by simp
    ultimately show ?thesis unfolding value_string_matches_def by blast
  qed
next
  assume "value_name_matches d e \<or> value_string_matches d e"
  then show "values_loop d e"
  proof
    assume "value_name_matches d e"
    then show ?thesis unfolding value_name_matches_def values_loop_def by blast
  next
    assume "value_string_matches d e"
    then obtain v where v: "v |\<in>| fmran (Values e)"
      and c: "case v of VString s \<Rightarrow> any_match (valuesR d) s | _ \<Rightarrow> False"
      unfolding value_string_matches_def by blast
    from v obtain k where k: "fmlookup (Values e) k = Some v" by (rule fmranE)
    then have "k |\<in>| fmdom (Values e)" by (rule fmdomI)
    moreover have "case fmlookup (Values e) k of
           Some (VString vs) \<Rightarrow> any_match (valuesR d) vs | _ \<Rightarrow> False"
      using k c by simp
    ultimately show ?thesis unfolding values_loop_def by blast
  qed
qed

lemma tags_loop_criteria:
  "tags_loop d e \<longleftrightarrow> tag_name_matches d e \<or> tag_value_matches d e"
proof
  assume "tags_loop d e"
  then obtain k where k: "k |\<in>| fmdom (Tags e)"
    and m: "any_match (tagNames d) k \<or>
        (case fmlookup (Tags e) k of Some v \<Rightarrow> any_match (tags d) v | None \<Rightarrow> False)"
    unfolding tags_loop_def by blast
  from m show "tag_name_matches d e \<or> tag_value_matches d e"
  proof
    assume "any_match (tagNames d) k"
    with k show ?thesis unfolding tag_name_matches_def by blast
  next
    assume a: "case fmlookup (Tags e) k of Some v \<Rightarrow> any_match (tags d) v | None \<Rightarrow> False"
    then obtain v where v: "fmlookup (Tags e) k = Some v"
      by (cases "fmlookup (Tags e) k") simp_all
    then have "v |\<in>| fmran (Tags e)" by (rule fmranI)
    moreover have "any_match (tags d) v" using a v by simp
    ultimately show ?thesis unfolding tag_value_matches_def by blast
  qed
next
  assume "tag_name_matches d e \<or> tag_value_matches d e"
  then show "tags_loop d e"
  proof
    assume "tag_name_matches d e"
    then show ?thesis unfolding tag_name_matches_def tags_loop_def by blast
  next
    assume "tag_value_matches d e"
    then obtain v where v: "v |\<in>| fmran (Tags e)" and c: "any_match (tags d) v"
      unfolding tag_value_matches_def by blast
    from v obtain k where k: "fmlookup (Tags e) k = Some v" by (rule fmranE)
    then have "k |\<in>| fmdom (Tags e)" by (rule fmdomI)
    moreover have "case fmlookup (Tags e) k of Some v \<Rightarrow> any_match (tags d) v | None \<Rightarrow> False"
      using k c by simp
    ultimately show ?thesis unfolding tags_loop_def by blast
  qed
qed

lemma drop_drop_Some:
  "drop_drop d (Some e) =
     Inr (if Condition d \<noteq> [] then CheckCondition (code d) (Some e) \<noteq> Inr False
          else tag_name_matches d e \<or> tag_value_matches d e \<or>
               value_name_matches d e \<or> value_string_matches d e)"
proof (cases "Condition d \<noteq> []")
  case True
  show ?thesis
  proof (cases "CheckCondition (code d) (Some e)")
    case (Inl err)
    with True show ?thesis by (simp add: drop_drop_def)
  next
    case (Inr ok)
    with True show ?thesis by (simp add: drop_drop_def)
  qed
next
  case False
  have "drop_drop d (Some e) = Inr (values_loop d e \<or> tags_loop d e)"
    using False by (simp add: drop_drop_def)
  also have "(values_loop d e \<or> tags_loop d e) \<longleftrightarrow>
      (tag_name_matches d e \<or> tag_value_matches d e \<or>
       value_name_matches d e \<or> value_string_matches d e)"
    unfolding values_loop_criteria tags_loop_criteria by blast
  finally show ?thesis using False by simp
qed

lemma drop_Apply_filter:
  "drop_Apply d es = Inr r \<Longrightarrow> r = filter (\<lambda>x. drop_drop d x = Inr False) es"
proof (induction es arbitrary: r)
  case Nil
  then show ?case by simp
next
  case (Cons e es)
  from Cons.prems obtain b kept where b: "drop_drop d e = Inr b"
    and kept: "drop_Apply d es = Inr kept"
    and r: "r = (if b then kept else e # kept)"
    by (simp split: sum.splits)
  from Cons.IH[OF kept] have "kept = filter (\<lambda>x. drop_drop d x = Inr False) es" .
  with b r show ?case by simp
qed

lemma drop_Apply_total:
  "\<forall>x \<in> set es. \<exists>b. drop_drop d x = Inr b \<Longrightarrow> \<exists>r. drop_Apply d es = Inr r"
proof (induction es)
  case Nil
  then show ?case by simp
next
  case (Cons e es)
  then obtain b r where "drop_drop d e = Inr b" "drop_Apply d es = Inr r" by auto
  then show ?case by simp
qed

lemma drop_drop_no_panic:
  "Condition d \<noteq> [] \<or> x \<noteq> None \<Longrightarrow> \<exists>b. drop_drop d x = Inr b"
proof (cases "Condition d \<noteq> []")
  case True
  then show ?thesis
    by (cases "CheckCondition (code d) x") (auto simp: drop_drop_def)
next
  case False
  assume "Condition d \<noteq> [] \<or> x \<noteq> None"
  with False obtain e where "x = Some e" by auto
  with False show ?thesis by (auto simp: drop_drop_def)
qed

lemma drop_Apply_kept:
  "\<forall>x \<in> set r. drop_drop d x = Inr False \<Longrightarrow> drop_Apply d r = Inr r"
  by (induction r) simp_all

text \<open>
  Claim C2, as amended. In by-timestamp mode, on every batch, \<^verbatim>\<open>merge.Apply\<close> returns the
  groups of the non-nil events by timestamp, one entry per timestamp in the order of the
  first occurrences, each the fold of its group in batch order. In always mode it returns
  the empty batch on the empty batch and, on a batch whose first entry is not nil, the
  single entry obtained by folding every later non-nil event into the first. Folding
  takes the union of tags and of values with the second event winning, appends the
  delete paths and keeps the larger timestamp.
\<close>

theorem merge_Apply_folds:
  "(\<not> Always p \<longrightarrow> merge_Apply p es = Inr (map Some (by_timestamp (nonnil es))))
   \<and> (Always p \<longrightarrow> merge_Apply p [] = Inr [])
   \<and> (Always p \<longrightarrow>
        merge_Apply p (Some e0 # rest) = Inr [Some (foldl folded e0 (nonnil rest))])
   \<and> fmlookup (Tags (folded e1 e2)) k =
        (case fmlookup (Tags e2) k of Some v \<Rightarrow> Some v | None \<Rightarrow> fmlookup (Tags e1) k)
   \<and> fmlookup (Values (folded e1 e2)) k =
        (case fmlookup (Values e2) k of Some v \<Rightarrow> Some v | None \<Rightarrow> fmlookup (Values e1) k)
   \<and> Deletes (folded e1 e2) = Deletes e1 @ Deletes e2
   \<and> Timestamp (folded e1 e2) = max (Timestamp e1) (Timestamp e2)"
proof (intro conjI impI)
  assume na: "\<not> Always p"
  have inv: "index_inv [] Map.empty" by (simp add: index_inv_def)
  have "timestamp_loop [] Map.empty es = Inr (map Some (foldl absorb [] (nonnil es)))"
    using timestamp_loop_absorb[OF inv, of es] by simp
  moreover have "foldl absorb [] (nonnil es) = by_timestamp (nonnil es)"
    using foldl_absorb_groups[of "[]" "nonnil es"] by simp
  moreover have "merge_Apply p es = timestamp_loop [] Map.empty es"
    using na by (cases es) (simp_all add: merge_Apply_def)
  ultimately show "merge_Apply p es = Inr (map Some (by_timestamp (nonnil es)))" by simp
next
  assume "Always p"
  then show "merge_Apply p [] = Inr []" by (simp add: merge_Apply_def)
next
  assume "Always p"
  then show "merge_Apply p (Some e0 # rest) = Inr [Some (foldl folded e0 (nonnil rest))]"
    by (simp add: merge_Apply_def always_loop_foldl)
next
  show "fmlookup (Tags (folded e1 e2)) k =
        (case fmlookup (Tags e2) k of Some v \<Rightarrow> Some v | None \<Rightarrow> fmlookup (Tags e1) k)"
    by (cases "fmlookup (Tags e2) k") (simp_all add: folded_def fmdom_notI fmdomI)
next
  show "fmlookup (Values (folded e1 e2)) k =
        (case fmlookup (Values e2) k of Some v \<Rightarrow> Some v | None \<Rightarrow> fmlookup (Values e1) k)"
    by (cases "fmlookup (Values e2) k") (simp_all add: folded_def fmdom_notI fmdomI)
next
  show "Deletes (folded e1 e2) = Deletes e1 @ Deletes e2" by (simp add: folded_def)
next
  show "Timestamp (folded e1 e2) = max (Timestamp e1) (Timestamp e2)" by (simp add: folded_def)
qed

text \<open>
  The specification's scenario, with a nil entry added: by timestamp it gives the two
  expected events, always mode gives one.
\<close>

theorem merge_Apply_folds_witness:
  "merge_Apply \<lparr>Always = False\<rparr> [Some ev_ts1_tags, None, Some ev_ts1_values, Some ev_ts2_tags]
     = Inr [Some ev_ts1_merged, Some ev_ts2_tags]
   \<and> merge_Apply \<lparr>Always = True\<rparr> [Some ev_ts1_tags, None, Some ev_ts1_values, Some ev_ts2_tags]
     = Inr [Some ev_all_merged]"
proof
  have "merge_Apply \<lparr>Always = False\<rparr> [Some ev_ts1_tags, None, Some ev_ts1_values, Some ev_ts2_tags]
      = Inr (map Some (by_timestamp
          (nonnil [Some ev_ts1_tags, None, Some ev_ts1_values, Some ev_ts2_tags])))"
    using merge_Apply_folds[of "\<lparr>Always = False\<rparr>"
        "[Some ev_ts1_tags, None, Some ev_ts1_values, Some ev_ts2_tags]"]
    by simp
  also have "by_timestamp (nonnil [Some ev_ts1_tags, None, Some ev_ts1_values, Some ev_ts2_tags])
      = [ev_ts1_merged, ev_ts2_tags]"
    by (simp add: ev_ts1_tags_def ev_ts1_values_def ev_ts2_tags_def ev_ts1_merged_def folded_def)
  finally show "merge_Apply \<lparr>Always = False\<rparr>
      [Some ev_ts1_tags, None, Some ev_ts1_values, Some ev_ts2_tags]
     = Inr [Some ev_ts1_merged, Some ev_ts2_tags]" by simp
next
  have "merge_Apply \<lparr>Always = True\<rparr> (Some ev_ts1_tags # [None, Some ev_ts1_values, Some ev_ts2_tags])
      = Inr [Some (foldl folded ev_ts1_tags (nonnil [None, Some ev_ts1_values, Some ev_ts2_tags]))]"
    using merge_Apply_folds[of "\<lparr>Always = True\<rparr>" _ ev_ts1_tags
        "[None, Some ev_ts1_values, Some ev_ts2_tags]"]
    by simp
  also have "foldl folded ev_ts1_tags (nonnil [None, Some ev_ts1_values, Some ev_ts2_tags])
      = ev_all_merged"
    by (simp add: ev_ts1_tags_def ev_ts1_values_def ev_ts2_tags_def ev_all_merged_def folded_def)
  finally show "merge_Apply \<lparr>Always = True\<rparr>
      [Some ev_ts1_tags, None, Some ev_ts1_values, Some ev_ts2_tags]
     = Inr [Some ev_all_merged]" by simp
qed

text \<open>
  Claim C2 as stated fails on the empty batch: always mode returns it as it is, and not a
  batch of one element.
\<close>

theorem merge_always_empty_counterexample:
  "merge_Apply \<lparr>Always = True\<rparr> [] = Inr []"
  by (simp add: merge_Apply_def)

text \<open>
  Claim C3 at its failing input: a processor with the condition \<^verbatim>\<open>.values.counter > 10\<close>
  and the tag-name expression \<^verbatim>\<open>^interface$\<close>, on an event with the tag \<^verbatim>\<open>interface\<close>
  and the value \<^verbatim>\<open>counter = 5\<close>. The tag-name expression matches a tag key of the
  event, so the claim (and the comment on the type \<^verbatim>\<open>drop\<close>) has the event dropped;
  the condition evaluates to false, \<^verbatim>\<open>drop.drop\<close> returns false and \<^verbatim>\<open>drop.Apply\<close>
  keeps the event.
\<close>

theorem drop_condition_shadows_regex:
  "tag_name_matches drop_cond_and_tag_names ev_interface
   \<and> drop_drop drop_cond_and_tag_names (Some ev_interface) = Inr False
   \<and> drop_Apply drop_cond_and_tag_names [Some ev_interface] = Inr [Some ev_interface]"
  by (simp add: tag_name_matches_def any_match_def drop_cond_and_tag_names_def drop_tag_names_def
      ev_interface_def re_interface_def drop_drop_def CheckCondition_def cond_false_def)

text \<open>
  Claim C9: for every batch and every drop processor, applying \<^verbatim>\<open>drop.Apply\<close> to the result
  of \<^verbatim>\<open>drop.Apply\<close> gives that result again (a fault of the first application ends the
  run in both cases).
\<close>

theorem drop_Apply_idempotent:
  "(case drop_Apply d es of Inl p \<Rightarrow> Inl p | Inr r \<Rightarrow> drop_Apply d r) = drop_Apply d es"
proof (cases "drop_Apply d es")
  case (Inl p)
  then show ?thesis by simp
next
  case (Inr r)
  then have "r = filter (\<lambda>x. drop_drop d x = Inr False) es" by (rule drop_Apply_filter)
  then have "\<forall>x \<in> set r. drop_drop d x = Inr False" by simp
  then have "drop_Apply d r = Inr r" by (rule drop_Apply_kept)
  with Inr show ?thesis by simp
qed

text \<open>A batch of two events: the second application changes nothing.\<close>

theorem drop_Apply_idempotent_witness:
  "drop_Apply drop_tag_names [Some ev_interface, Some ev_plain] = Inr [Some ev_plain]
   \<and> drop_Apply drop_tag_names [Some ev_plain] = Inr [Some ev_plain]"
proof -
  have once: "drop_Apply drop_tag_names [Some ev_interface, Some ev_plain] = Inr [Some ev_plain]"
    by (simp add: drop_drop_def values_loop_def tags_loop_def any_match_def drop_tag_names_def
        ev_interface_def ev_plain_def re_interface_def)
  have "(case drop_Apply drop_tag_names [Some ev_interface, Some ev_plain] of
           Inl p \<Rightarrow> Inl p | Inr r \<Rightarrow> drop_Apply drop_tag_names r)
        = drop_Apply drop_tag_names [Some ev_interface, Some ev_plain]"
    by (rule drop_Apply_idempotent)
  then have "drop_Apply drop_tag_names [Some ev_plain] = Inr [Some ev_plain]"
    by (simp only: once sum.case)
  with once show ?thesis by simp
qed

text \<open>
  Claim C10: with no compiled condition \<^verbatim>\<open>CheckCondition\<close> returns true and no error; and
  when a condition is configured and its evaluation on an event yields an error or a
  result that is not a boolean, \<^verbatim>\<open>drop.drop\<close> returns true for that event and
  \<^verbatim>\<open>drop.Apply\<close> returns a batch without it.
\<close>

theorem drop_condition_fail_closed:
  "CheckCondition None e = Inr True
   \<and> (Condition d \<noteq> [] \<and> code d = Some c
        \<and> (c (Some ev) = YieldsError err \<or> c (Some ev) = YieldsOther v) \<longrightarrow>
      drop_drop d (Some ev) = Inr True
      \<and> drop_Apply d es = Inr (filter (\<lambda>x. drop_drop d x = Inr False) es)
      \<and> Some ev \<notin> set (filter (\<lambda>x. drop_drop d x = Inr False) es))"
proof (intro conjI impI)
  show "CheckCondition None e = Inr True" by (simp add: CheckCondition_def)
next
  assume a: "Condition d \<noteq> [] \<and> code d = Some c
        \<and> (c (Some ev) = YieldsError err \<or> c (Some ev) = YieldsOther v)"
  then have "\<exists>msg. CheckCondition (code d) (Some ev) = Inl msg"
    by (auto simp: CheckCondition_def)
  with a show dd: "drop_drop d (Some ev) = Inr True"
    by (auto simp: drop_drop_def)
  then show "Some ev \<notin> set (filter (\<lambda>x. drop_drop d x = Inr False) es)" by simp
  have "\<forall>x \<in> set es. \<exists>b. drop_drop d x = Inr b"
    using a drop_drop_no_panic[of d] by blast
  then obtain r where r: "drop_Apply d es = Inr r" using drop_Apply_total by blast
  with drop_Apply_filter[OF r]
  show "drop_Apply d es = Inr (filter (\<lambda>x. drop_drop d x = Inr False) es)" by simp
qed

text \<open>A condition that yields a number: the event is dropped.\<close>

theorem drop_condition_fail_closed_witness:
  "drop_drop drop_cond_not_bool (Some ev_interface) = Inr True
   \<and> drop_Apply drop_cond_not_bool [Some ev_interface] = Inr []"
proof -
  have h: "Condition drop_cond_not_bool \<noteq> [] \<and> code drop_cond_not_bool = Some cond_not_bool
        \<and> (cond_not_bool (Some ev_interface) = YieldsError []
            \<or> cond_not_bool (Some ev_interface) = YieldsOther ''float64'')"
    by (simp add: drop_cond_not_bool_def drop_tag_names_def cond_not_bool_def)
  from drop_condition_fail_closed[of _ drop_cond_not_bool cond_not_bool ev_interface
      "[]" "''float64''" "[Some ev_interface]"] h
  have d: "drop_drop drop_cond_not_bool (Some ev_interface) = Inr True"
    and a: "drop_Apply drop_cond_not_bool [Some ev_interface]
      = Inr (filter (\<lambda>x. drop_drop drop_cond_not_bool x = Inr False) [Some ev_interface])"
    by blast+
  from a d show ?thesis by simp
qed

text \<open>
  Claim C6 at its failing inputs: in always mode a nil first entry followed by an event is
  dereferenced by \<^verbatim>\<open>mergeEvents\<close>; a drop processor without a condition dereferences a
  nil entry; and on a batch of nil entries always mode returns a nil entry.
\<close>

theorem nil_entry_faults:
  "merge_Apply \<lparr>Always = True\<rparr> [None, Some ev_plain] = Inl NilPointerDereference
   \<and> drop_Apply drop_tag_names [None] = Inl NilPointerDereference
   \<and> merge_Apply \<lparr>Always = True\<rparr> [None, None] = Inr [None]"
  by (simp add: merge_Apply_def mergeEvents_def drop_drop_def drop_tag_names_def)

subsection \<open>The trigger processor\<close>

lemma setDefaults_bounds:
  assumes "setDefaults q = Inr p"
  shows "1 \<le> MinOccurrences p" and "MinOccurrences p \<le> MaxOccurrences p" and "0 < Window p"
  using assms by (auto simp: setDefaults_def Let_def minute_def split: if_splits)

lemma sorted_filter_suffix:
  fixes xs :: "int list"
  assumes "sorted xs"
  shows "\<exists>ev. xs = ev @ filter (\<lambda>t. now < t + w) xs \<and> (\<forall>e \<in> set ev. e + w \<le> now)"
  using assms
proof (induction xs)
  case Nil
  then show ?case by simp
next
  case (Cons x xs)
  show ?case
  proof (cases "now < x + w")
    case True
    with Cons.prems have "\<forall>y \<in> set xs. now < y + w" by auto
    then have "filter (\<lambda>t. now < t + w) (x # xs) = x # xs" using True by simp
    then show ?thesis by simp
  next
    case False
    from Cons obtain ev where ev: "xs = ev @ filter (\<lambda>t. now < t + w) xs"
      "\<forall>e \<in> set ev. e + w \<le> now" by auto
    have "x # xs = (x # ev) @ filter (\<lambda>t. now < t + w) (x # xs)"
      using False ev(1) by simp
    moreover have "\<forall>e \<in> set (x # ev). e + w \<le> now" using False ev(2) by simp
    ultimately show ?thesis by blast
  qed
qed

lemma eval_step:
  assumes b: "1 \<le> MinOccurrences p" "MinOccurrences p \<le> MaxOccurrences p" "0 < Window p"
    and st: "stored p hist"
    and le: "\<forall>t \<in> set hist. t \<le> now"
  shows "\<exists>p'. evalOccurrencesWithinWindow p now =
            Inr (fires_at (MinOccurrences p) (MaxOccurrences p) (Window p) hist (lastTrigger p) now, p')
          \<and> stored p' (hist @ [now]) \<and> same_config p p'
          \<and> lastTrigger p' =
              (if fires_at (MinOccurrences p) (MaxOccurrences p) (Window p) hist (lastTrigger p) now
               then now else lastTrigger p)"
proof -
  define w where "w = Window p"
  define M where "M = MaxOccurrences p"
  define m where "m = MinOccurrences p"
  define occ where "occ = occurrencesTimes p"
  define fin where "fin = filter (\<lambda>t. now < t + w) occ"
  define n1 where "n1 = int (length fin) + 1"
  from st obtain zs where hist: "hist = zs @ occ"
    and full: "int (length occ) = M + 1 \<or> (\<forall>z \<in> set zs. \<exists>t \<in> set hist. z + w \<le> t)"
    and srt: "sorted hist"
    unfolding stored_def occ_def M_def w_def by blast
  from srt hist have socc: "sorted occ" and zle: "\<forall>z \<in> set zs. \<forall>e \<in> set occ. z \<le> e"
    by (auto simp: sorted_append)
  from sorted_filter_suffix[OF socc, of now w] obtain ev
    where ev: "occ = ev @ fin" and evo: "\<forall>e \<in> set ev. e + w \<le> now"
    unfolding fin_def by blast
  have wc: "window_count w hist now = int (length (filter (\<lambda>t. now < t + w) zs)) + n1"
    using b(3) by (simp add: window_count_def hist fin_def n1_def w_def)
  have zs_out: "\<forall>z \<in> set zs. z + w \<le> now" if small: "n1 \<le> M"
  proof
    fix z assume z: "z \<in> set zs"
    from full show "z + w \<le> now"
    proof
      assume "int (length occ) = M + 1"
      with small have "length fin < length occ" by (simp add: n1_def)
      with ev have "ev \<noteq> []" by auto
      then obtain e where e: "e \<in> set ev" by (cases ev) auto
      with ev have "e \<in> set occ" by (metis Un_iff set_append)
      with zle z have "z \<le> e" by blast
      with evo e show ?thesis by fastforce
    next
      assume "\<forall>z \<in> set zs. \<exists>t \<in> set hist. z + w \<le> t"
      with z obtain t where "t \<in> set hist" "z + w \<le> t" by blast
      with le show ?thesis by fastforce
    qed
  qed
  have cnt_small: "window_count w hist now = n1" if "n1 \<le> M"
  proof -
    from zs_out[OF that] have "filter (\<lambda>t. now < t + w) zs = []"
      by (auto simp: filter_empty_conv)
    with wc show ?thesis by simp
  qed
  have cnt_big: "M < window_count w hist now" if "M < n1"
    using wc that by simp
  have shist: "sorted (hist @ [now])" using srt le by (simp add: sorted_append)
  let ?f = "fires_at m M w hist (lastTrigger p) now"
  show ?thesis
  proof (cases "M < n1")
    case True
    define low where "low = nat (n1 - M - 1)"
    define occ2 where "occ2 = drop low (fin @ [now])"
    define p' where "p' = p\<lparr>occurrencesTimes := occ2,
        lastTrigger := (if ?f then now else lastTrigger p)\<rparr>"
    have len2: "int (length occ2) = M + 1"
      using True b by (simp add: occ2_def low_def n1_def M_def)
    have f: "?f \<longleftrightarrow> lastTrigger p + w < now"
      using cnt_big[OF True] by (auto simp: fires_at_def)
    have run: "evalOccurrencesWithinWindow p now = Inr (?f, p')"
      using True b len2 f
      by (simp add: evalOccurrencesWithinWindow_def Let_def p'_def occ2_def low_def n1_def
          fin_def occ_def w_def M_def m_def)
    have "fin @ [now] = take low (fin @ [now]) @ occ2"
      unfolding occ2_def by (simp only: append_take_drop_id)
    then have "hist @ [now] = (zs @ ev @ take low (fin @ [now])) @ occ2"
      using hist ev by (metis append.assoc)
    then have "stored p' (hist @ [now])"
      unfolding stored_def using shist len2 by (simp add: p'_def M_def)
    moreover have "same_config p p'" by (simp add: same_config_def p'_def)
    moreover have "lastTrigger p' = (if ?f then now else lastTrigger p)" by (simp add: p'_def)
    ultimately show ?thesis using run unfolding m_def M_def w_def by blast
  next
    case False
    then have small: "n1 \<le> M" by simp
    define occ2 where "occ2 = fin @ [now]"
    define p' where "p' = p\<lparr>occurrencesTimes := occ2,
        lastTrigger := (if ?f then now else lastTrigger p)\<rparr>"
    have f: "?f \<longleftrightarrow> m \<le> n1"
      using cnt_small[OF small] small by (auto simp: fires_at_def)
    have run: "evalOccurrencesWithinWindow p now = Inr (?f, p')"
      using small f
      by (simp add: evalOccurrencesWithinWindow_def Let_def p'_def occ2_def n1_def
          fin_def occ_def w_def M_def m_def)
    have h2: "hist @ [now] = (zs @ ev) @ occ2"
      by (simp add: hist ev occ2_def)
    have "\<forall>z \<in> set (zs @ ev). \<exists>t \<in> set (hist @ [now]). z + w \<le> t"
      using zs_out[OF small] evo by auto
    with h2 have "stored p' (hist @ [now])"
      unfolding stored_def using shist by (simp add: p'_def w_def)
    moreover have "same_config p p'" by (simp add: same_config_def p'_def)
    moreover have "lastTrigger p' = (if ?f then now else lastTrigger p)" by (simp add: p'_def)
    ultimately show ?thesis using run unfolding m_def M_def w_def by blast
  qed
qed

lemma fired_spec_append:
  "fired_spec mn mx w hist lt (xs @ ys) =
     fired_spec mn mx w hist lt xs
     @ fired_spec mn mx w (hist @ map fst xs) (last_spec mn mx w hist lt xs) ys"
  by (induction xs arbitrary: hist lt) auto

lemma same_config_trans:
  "same_config p p1 \<Longrightarrow> same_config p1 p2 \<Longrightarrow> same_config p p2"
  by (simp add: same_config_def)

lemma trigger_loop_spec:
  assumes "1 \<le> MinOccurrences p" "MinOccurrences p \<le> MaxOccurrences p" "0 < Window p"
    and "stored p hist"
    and "\<forall>t \<in> set hist. t \<le> now"
  shows "\<exists>p'. trigger_loop p now es =
            Inr (p', fired_spec (MinOccurrences p) (MaxOccurrences p) (Window p) hist (lastTrigger p)
                   (map (Pair now)
                      (filter (\<lambda>e. CheckCondition (code_t p) (Some e) = Inr True) (nonnil es))))
          \<and> stored p' (hist @ map fst (map (Pair now)
                      (filter (\<lambda>e. CheckCondition (code_t p) (Some e) = Inr True) (nonnil es))))
          \<and> same_config p p'
          \<and> lastTrigger p' =
              last_spec (MinOccurrences p) (MaxOccurrences p) (Window p) hist (lastTrigger p)
                (map (Pair now)
                   (filter (\<lambda>e. CheckCondition (code_t p) (Some e) = Inr True) (nonnil es)))"
  using assms
proof (induction es arbitrary: p hist)
  case Nil
  then show ?case by (simp add: same_config_def)
next
  case (Cons x es)
  show ?case
  proof (cases x)
    case None
    with Cons.IH[OF Cons.prems] show ?thesis by simp
  next
    case (Some e)
    show ?thesis
    proof (cases "CheckCondition (code_t p) (Some e) = Inr True")
      case False
      then have "trigger_loop p now (x # es) = trigger_loop p now es"
        using Some by (cases "CheckCondition (code_t p) (Some e)") auto
      with Cons.IH[OF Cons.prems] False Some show ?thesis by simp
    next
      case True
      let ?f = "fires_at (MinOccurrences p) (MaxOccurrences p) (Window p) hist (lastTrigger p) now"
      from eval_step[OF Cons.prems] obtain p1 where
        ev: "evalOccurrencesWithinWindow p now = Inr (?f, p1)"
        and st1: "stored p1 (hist @ [now])" and sc: "same_config p p1"
        and lt1: "lastTrigger p1 = (if ?f then now else lastTrigger p)"
        by blast
      from sc have eqs: "MinOccurrences p1 = MinOccurrences p" "MaxOccurrences p1 = MaxOccurrences p"
        "Window p1 = Window p" "code_t p1 = code_t p"
        by (simp_all add: same_config_def)
      have le1: "\<forall>t \<in> set (hist @ [now]). t \<le> now" using Cons.prems(5) by simp
      have b1: "1 \<le> MinOccurrences p1" "MinOccurrences p1 \<le> MaxOccurrences p1" "0 < Window p1"
        using Cons.prems(1-3) eqs by simp_all
      from Cons.IH[OF b1 st1 le1] obtain p2 where
        run: "trigger_loop p1 now es =
            Inr (p2, fired_spec (MinOccurrences p) (MaxOccurrences p) (Window p) (hist @ [now])
                   (lastTrigger p1)
                   (map (Pair now)
                      (filter (\<lambda>e. CheckCondition (code_t p) (Some e) = Inr True) (nonnil es))))"
        and st2: "stored p2 ((hist @ [now]) @ map fst (map (Pair now)
                      (filter (\<lambda>e. CheckCondition (code_t p) (Some e) = Inr True) (nonnil es))))"
        and sc2: "same_config p1 p2"
        and lt2: "lastTrigger p2 =
              last_spec (MinOccurrences p) (MaxOccurrences p) (Window p) (hist @ [now])
                (lastTrigger p1)
                (map (Pair now)
                   (filter (\<lambda>e. CheckCondition (code_t p) (Some e) = Inr True) (nonnil es)))"
        unfolding eqs by blast
      have "trigger_loop p now (x # es) =
          Inr (p2, fired_spec (MinOccurrences p) (MaxOccurrences p) (Window p) hist (lastTrigger p)
                   (map (Pair now)
                      (filter (\<lambda>e. CheckCondition (code_t p) (Some e) = Inr True) (nonnil (x # es)))))"
        using Some True ev run lt1 by simp
      moreover have "stored p2 (hist @ map fst (map (Pair now)
                      (filter (\<lambda>e. CheckCondition (code_t p) (Some e) = Inr True) (nonnil (x # es)))))"
        using st2 Some True by simp
      moreover have "same_config p p2" using sc sc2 by (rule same_config_trans)
      moreover have "lastTrigger p2 =
              last_spec (MinOccurrences p) (MaxOccurrences p) (Window p) hist (lastTrigger p)
                (map (Pair now)
                   (filter (\<lambda>e. CheckCondition (code_t p) (Some e) = Inr True) (nonnil (x # es))))"
        using lt2 lt1 Some True by simp
      ultimately show ?thesis by blast
    qed
  qed
qed

lemma occurrences_Cons:
  "occurrences c ((now, es) # cs) =
     map (Pair now) (filter (\<lambda>e. CheckCondition c (Some e) = Inr True) (nonnil es))
     @ occurrences c cs"
  by (simp add: occurrences_def)

lemma trigger_calls_spec:
  assumes "1 \<le> MinOccurrences p" "MinOccurrences p \<le> MaxOccurrences p" "0 < Window p"
    and "stored p hist"
    and "sorted (map fst cs)"
    and "\<forall>t \<in> set hist. \<forall>c \<in> set cs. t \<le> fst c"
  shows "\<exists>p'. trigger_calls p cs =
            Inr (p', fired_spec (MinOccurrences p) (MaxOccurrences p) (Window p) hist (lastTrigger p)
                   (occurrences (code_t p) cs))"
  using assms
proof (induction cs arbitrary: p hist)
  case Nil
  then show ?case by (simp add: occurrences_def)
next
  case (Cons c cs)
  obtain now es where c: "c = (now, es)" by (cases c)
  let ?xs = "map (Pair now)
      (filter (\<lambda>e. CheckCondition (code_t p) (Some e) = Inr True) (nonnil es))"
  have le: "\<forall>t \<in> set hist. t \<le> now" using Cons.prems(6) c by simp
  from trigger_loop_spec[OF Cons.prems(1-4) le, of es] obtain p1 where
    run1: "trigger_loop p now es =
       Inr (p1, fired_spec (MinOccurrences p) (MaxOccurrences p) (Window p) hist (lastTrigger p) ?xs)"
    and st1: "stored p1 (hist @ map fst ?xs)" and sc: "same_config p p1"
    and lt1: "lastTrigger p1 =
       last_spec (MinOccurrences p) (MaxOccurrences p) (Window p) hist (lastTrigger p) ?xs"
    by blast
  from sc have eqs: "MinOccurrences p1 = MinOccurrences p" "MaxOccurrences p1 = MaxOccurrences p"
    "Window p1 = Window p" "code_t p1 = code_t p"
    by (simp_all add: same_config_def)
  have b1: "1 \<le> MinOccurrences p1" "MinOccurrences p1 \<le> MaxOccurrences p1" "0 < Window p1"
    using Cons.prems(1-3) eqs by simp_all
  have s1: "sorted (map fst cs)" using Cons.prems(5) by simp
  have nle: "\<forall>d \<in> set cs. now \<le> fst d" using Cons.prems(5) c by auto
  have le1: "\<forall>t \<in> set (hist @ map fst ?xs). \<forall>d \<in> set cs. t \<le> fst d"
    using Cons.prems(6) nle by auto
  from Cons.IH[OF b1 st1 s1 le1] obtain p2 where
    run2: "trigger_calls p1 cs =
       Inr (p2, fired_spec (MinOccurrences p) (MaxOccurrences p) (Window p) (hist @ map fst ?xs)
              (lastTrigger p1) (occurrences (code_t p) cs))"
    unfolding eqs by blast
  have "trigger_calls p (c # cs) =
      Inr (p2, fired_spec (MinOccurrences p) (MaxOccurrences p) (Window p) hist (lastTrigger p) ?xs
               @ fired_spec (MinOccurrences p) (MaxOccurrences p) (Window p) (hist @ map fst ?xs)
                   (lastTrigger p1) (occurrences (code_t p) cs))"
    using run1 run2 by (simp add: c trigger_Apply_def)
  then show ?case
    unfolding c occurrences_Cons fired_spec_append lt1 by blast
qed

text \<open>
  Claim C4, as amended. Take a processor with \<open>1 \<le> min \<le> max\<close> and a positive window
  (what \<^verbatim>\<open>setDefaults\<close> leaves) that has stored no occurrence yet, and a run of calls of
  \<^verbatim>\<open>Apply\<close> at instants that do not decrease. The run ends without a fault, and the events
  the actions run for are those of \<open>fired_spec\<close>: the processor fires at an occurrence
  (an event on which the condition evaluates to true) exactly when the count of
  occurrences inside the window, this one included, lies between min and max, or lies
  above max while the last firing is more than the window ago. Below min it never fires.
\<close>

theorem trigger_fires_in_window:
  assumes "1 \<le> MinOccurrences p" and "MinOccurrences p \<le> MaxOccurrences p" and "0 < Window p"
    and "occurrencesTimes p = []"
    and "sorted (map fst cs)"
  shows "\<exists>p'. trigger_calls p cs =
            Inr (p', fired_spec (MinOccurrences p) (MaxOccurrences p) (Window p) [] (lastTrigger p)
                   (occurrences (code_t p) cs))"
proof -
  have "stored p []" using assms(4) by (simp add: stored_def)
  from trigger_calls_spec[OF assms(1-3) this assms(5)] show ?thesis by simp
qed

text \<open>
  A run of a processor with bounds two and three and a window of ten seconds: nothing at
  the first occurrence, the actions run at the second and the third (one batch, with a nil
  entry), nothing at the fourth (the count is four and the last firing is a second ago),
  nothing at the fifth, eleven seconds later (the count is one).
\<close>

theorem trigger_fires_in_window_witness:
  "\<exists>p'. trigger_calls trigger_2_3
      [(t0, [Some ev_plain]),
       (t0 + seconds 1, [None, Some ev_interface, Some ev_plain]),
       (t0 + seconds 2, [Some ev_ts1_tags]),
       (t0 + seconds 13, [Some ev_ts2_tags])]
     = Inr (p', [ev_interface, ev_plain])"
proof -
  let ?cs = "[(t0, [Some ev_plain]),
       (t0 + seconds 1, [None, Some ev_interface, Some ev_plain]),
       (t0 + seconds 2, [Some ev_ts1_tags]),
       (t0 + seconds 13, [Some ev_ts2_tags])]"
  have b: "1 \<le> MinOccurrences trigger_2_3" "MinOccurrences trigger_2_3 \<le> MaxOccurrences trigger_2_3"
    "0 < Window trigger_2_3" "occurrencesTimes trigger_2_3 = []"
    by (simp_all add: trigger_2_3_def trigger_once_def)
  have s: "sorted (map fst ?cs)" by (simp add: seconds_def)
  have o: "occurrences (code_t trigger_2_3) ?cs =
      [(t0, ev_plain), (t0 + seconds 1, ev_interface), (t0 + seconds 1, ev_plain),
       (t0 + seconds 2, ev_ts1_tags), (t0 + seconds 13, ev_ts2_tags)]"
    by (simp add: occurrences_def trigger_2_3_def trigger_once_def CheckCondition_def cond_true_def)
  have f: "fired_spec (MinOccurrences trigger_2_3) (MaxOccurrences trigger_2_3) (Window trigger_2_3)
       [] (lastTrigger trigger_2_3)
       [(t0, ev_plain), (t0 + seconds 1, ev_interface), (t0 + seconds 1, ev_plain),
        (t0 + seconds 2, ev_ts1_tags), (t0 + seconds 13, ev_ts2_tags)]
     = [ev_interface, ev_plain]"
    by (simp add: trigger_2_3_def trigger_once_def fires_at_def window_count_def seconds_def
        zero_time_def t0_def)
  from trigger_fires_in_window[OF b s] show ?thesis by (simp only: o f)
qed

text \<open>
  Claim C4 as stated fails: a processor with both bounds at one and a window of ten
  seconds, three occurrences at 0, 5 and 11 seconds. At the third the window holds two
  occurrences (the second and the third), which is above max, and the processor fires,
  the last firing being eleven seconds ago.
\<close>

theorem trigger_fires_above_max_counterexample:
  "window_count (Window trigger_once) [t0, t0 + seconds 5] (t0 + seconds 11) = 2
   \<and> MaxOccurrences trigger_once = 1
   \<and> trigger_calls trigger_once [(t0, [Some ev_plain]), (t0 + seconds 5, [Some ev_plain])]
       = Inr (trigger_once\<lparr>occurrencesTimes := [t0, t0 + seconds 5], lastTrigger := t0\<rparr>,
              [ev_plain])
   \<and> trigger_calls trigger_once
        [(t0, [Some ev_plain]), (t0 + seconds 5, [Some ev_plain]),
         (t0 + seconds 11, [Some ev_interface])]
       = Inr (trigger_once\<lparr>occurrencesTimes := [t0 + seconds 5, t0 + seconds 11],
                lastTrigger := t0 + seconds 11\<rparr>,
              [ev_plain, ev_interface])"
  by (simp add: window_count_def trigger_once_def trigger_Apply_def CheckCondition_def
      cond_true_def evalOccurrencesWithinWindow_def Let_def seconds_def t0_def zero_time_def)

subsection \<open>The leader-only operations\<close>

text \<open>
  Claim C7: on an instance of a cluster (\<^verbatim>\<open>Config.Clustering\<close> is set) that is not the
  leader, each of the three leader-only handlers answers with the status 400 and the body
  \<^verbatim>\<open>{"errors":["not leader"]}\<close>, and sets nothing going: no unlock, no rebalance, no drain,
  whatever the instance named in the drain request.
\<close>

theorem non_leader_refused:
  assumes "Clustering a \<noteq> None" and "\<not> isLeader a"
  shows "handleClusteringLeaderDelete a = (error_response 400 [''not leader''], [])
       \<and> handleClusterRebalance a = (error_response 400 [''not leader''], [])
       \<and> handleClusteringDrainInstance a inst = Inr (error_response 400 [''not leader''], [])
       \<and> status_code (error_response 400 [''not leader'']) = 400
       \<and> written (error_response 400 [''not leader'']) = [JErrors [''not leader'']]"
  using assms
  by (simp add: handleClusteringLeaderDelete_def handleClusterRebalance_def
      handleClusteringDrainInstance_def error_response_def status_code_def Write_def
      WriteHeader_def new_writer_def)

text \<open>A follower asked to drain the instance \<^verbatim>\<open>gnmic2\<close>, to rebalance and to give up the lock.\<close>

theorem non_leader_refused_witness:
  "handleClusteringLeaderDelete app_follower
     = (\<lparr>status = Some 400, written = [JErrors [''not leader'']]\<rparr>, [])
   \<and> handleClusterRebalance app_follower
     = (\<lparr>status = Some 400, written = [JErrors [''not leader'']]\<rparr>, [])
   \<and> handleClusteringDrainInstance app_follower ''gnmic2''
     = Inr (\<lparr>status = Some 400, written = [JErrors [''not leader'']]\<rparr>, [])"
proof -
  have h: "Clustering app_follower \<noteq> None" "\<not> isLeader app_follower"
    by (simp_all add: app_follower_def)
  have e: "error_response 400 [''not leader'']
      = \<lparr>status = Some 400, written = [JErrors [''not leader'']]\<rparr>"
    by (simp add: error_response_def Write_def WriteHeader_def new_writer_def)
  from non_leader_refused[OF h, of "''gnmic2''"] show ?thesis by (simp only: e)
qed

subsection \<open>The views of the cluster\<close>

lemma getLeaderName_total: "\<exists>leader. getLeaderName a = Inr leader"
  by (simp add: getLeaderName_def split: sum.split)

lemma cluster_queries_services_fail:
  assumes "locker_GetServices a (ClusterName a @ ''-gnmic-api'') [] = Inl err"
  shows "cluster_queries a = Inl (error_response 500 [err])"
  using assms getLeaderName_total[of a] by (auto simp: cluster_queries_def)

lemma cluster_queries_mapping_fails:
  assumes "locker_GetServices a (ClusterName a @ ''-gnmic-api'') [] = Inr services"
    and "getInstanceToTargetsMapping a = Inl err"
  shows "cluster_queries a = Inl (error_response 500 [err])"
  using assms getLeaderName_total[of a] by (auto simp: cluster_queries_def)

lemma cluster_queries_ok:
  assumes "locker_GetServices a (ClusterName a @ ''-gnmic-api'') [] = Inr services"
    and "getInstanceToTargetsMapping a = Inr instanceNodes"
  shows "\<exists>leader. getLeaderName a = Inr leader
           \<and> cluster_queries a = Inr (leader, services, instanceNodes)"
  using assms getLeaderName_total[of a] by (auto simp: cluster_queries_def)

lemma error_response_status:
  "status_code (error_response c msgs) = c" "written (error_response c msgs) = [JErrors msgs]"
  by (simp_all add: error_response_def status_code_def Write_def WriteHeader_def new_writer_def)

text \<open>
  Claim C5, as amended. On an instance of a cluster whose leader lookup succeeds: when
  the listing of the services fails, or the listing of the target locks does, each of the
  three views fails as a whole, with the status 500 and the body \<^verbatim>\<open>{"errors":[err]}\<close> and
  nothing of the view; when both succeed (and the view can be encoded) each view answers
  with the status 200 and the whole view.
\<close>

theorem cluster_views_all_or_error:
  assumes "Clustering a \<noteq> None"
    and "locker_List a (''gnmic/'' @ ClusterName a @ ''/leader'') = Inr m"
  shows "(locker_GetServices a (ClusterName a @ ''-gnmic-api'') [] = Inl err
          \<or> (\<exists>services. locker_GetServices a (ClusterName a @ ''-gnmic-api'') [] = Inr services)
            \<and> getInstanceToTargetsMapping a = Inl err
          \<longrightarrow> handleClusteringGet a = error_response 500 [err]
            \<and> handleClusteringMembersGet a = error_response 500 [err]
            \<and> handleClusteringLeaderGet a = error_response 500 [err]
            \<and> status_code (error_response 500 [err]) = 500
            \<and> written (error_response 500 [err]) = [JErrors [err]])
       \<and> (locker_GetServices a (ClusterName a @ ''-gnmic-api'') [] = Inr services
          \<and> getInstanceToTargetsMapping a = Inr instanceNodes
          \<and> json_error a = (\<lambda>b. None)
          \<longrightarrow> status_code (handleClusteringGet a) = 200
            \<and> status_code (handleClusteringMembersGet a) = 200
            \<and> status_code (handleClusteringLeaderGet a) = 200
            \<and> (\<exists>leader. leader = (case fmlookup m (''gnmic/'' @ ClusterName a @ ''/leader'') of
                                      None \<Rightarrow> [] | Some v \<Rightarrow> v)
                \<and> written (handleClusteringGet a) =
                    [JCluster \<lparr>ClusterName_r = ClusterName a,
                       NumberOfLockedTargets =
                         sum_list (map (\<lambda>k. length (locked_by instanceNodes k))
                           (sorted_list_of_fset (fmdom instanceNodes))),
                       Leader = leader,
                       Members = map (member_of leader instanceNodes) services\<rparr>]
                \<and> written (handleClusteringMembersGet a) =
                    [JMembers (map (member_of leader instanceNodes) services)]
                \<and> written (handleClusteringLeaderGet a) =
                    [JMembers
                      [case find (\<lambda>s. TrimSuffix (ID s) ''-api'' = leader) services of
                         None \<Rightarrow> \<lparr>Name_m = [], APIEndpoint = [], IsLeader = False,
                                   NumberOfLockedTargets_m = 0, LockedTargets = []\<rparr>
                       | Some s \<Rightarrow> (member_of leader instanceNodes s)\<lparr>IsLeader := True\<rparr>]]))"
proof (intro conjI impI)
  assume f: "locker_GetServices a (ClusterName a @ ''-gnmic-api'') [] = Inl err
          \<or> (\<exists>services. locker_GetServices a (ClusterName a @ ''-gnmic-api'') [] = Inr services)
            \<and> getInstanceToTargetsMapping a = Inl err"
  then have q: "cluster_queries a = Inl (error_response 500 [err])"
    using cluster_queries_services_fail cluster_queries_mapping_fails by blast
  show "handleClusteringGet a = error_response 500 [err]"
    using assms(1) q by (auto simp: handleClusteringGet_def)
  show "handleClusteringMembersGet a = error_response 500 [err]"
    using assms(1) q by (auto simp: handleClusteringMembersGet_def)
  show "handleClusteringLeaderGet a = error_response 500 [err]"
    using assms(1) q by (auto simp: handleClusteringLeaderGet_def)
  show "status_code (error_response 500 [err]) = 500" by (rule error_response_status)
  show "written (error_response 500 [err]) = [JErrors [err]]" by (rule error_response_status)
next
  assume ok: "locker_GetServices a (ClusterName a @ ''-gnmic-api'') [] = Inr services
          \<and> getInstanceToTargetsMapping a = Inr instanceNodes
          \<and> json_error a = (\<lambda>b. None)"
  then obtain leader where l: "getLeaderName a = Inr leader"
    and q: "cluster_queries a = Inr (leader, services, instanceNodes)"
    using cluster_queries_ok by blast
  from ok have j: "\<And>b. marshal_write a b = Write b new_writer"
    by (simp add: marshal_write_def)
  have w: "\<And>b. status_code (Write b new_writer) = 200" "\<And>b. written (Write b new_writer) = [b]"
    by (simp_all add: status_code_def Write_def new_writer_def)
  show "status_code (handleClusteringGet a) = 200"
    using assms(1) q by (auto simp: handleClusteringGet_def j w)
  show "status_code (handleClusteringMembersGet a) = 200"
    using assms(1) q by (auto simp: handleClusteringMembersGet_def j w)
  show "status_code (handleClusteringLeaderGet a) = 200"
    using assms(1) q by (auto simp: handleClusteringLeaderGet_def j w)
  have "written (handleClusteringGet a) =
                    [JCluster \<lparr>ClusterName_r = ClusterName a,
                       NumberOfLockedTargets =
                         sum_list (map (\<lambda>k. length (locked_by instanceNodes k))
                           (sorted_list_of_fset (fmdom instanceNodes))),
                       Leader = leader,
                       Members = map (member_of leader instanceNodes) services\<rparr>]"
    using assms(1) q by (auto simp: handleClusteringGet_def j w)
  moreover have "written (handleClusteringMembersGet a) =
                    [JMembers (map (member_of leader instanceNodes) services)]"
    using assms(1) q by (auto simp: handleClusteringMembersGet_def j w)
  moreover have "written (handleClusteringLeaderGet a) =
                    [JMembers
                      [case find (\<lambda>s. TrimSuffix (ID s) ''-api'' = leader) services of
                         None \<Rightarrow> \<lparr>Name_m = [], APIEndpoint = [], IsLeader = False,
                                   NumberOfLockedTargets_m = 0, LockedTargets = []\<rparr>
                       | Some s \<Rightarrow> (member_of leader instanceNodes s)\<lparr>IsLeader := True\<rparr>]]"
    using assms(1) q by (auto simp: handleClusteringLeaderGet_def j w)
  moreover have "leader = (case fmlookup m (''gnmic/'' @ ClusterName a @ ''/leader'') of
                                      None \<Rightarrow> [] | Some v \<Rightarrow> v)"
    using l assms(2) by (simp add: getLeaderName_def)
  ultimately show "\<exists>leader. leader = (case fmlookup m (''gnmic/'' @ ClusterName a @ ''/leader'') of
                                      None \<Rightarrow> [] | Some v \<Rightarrow> v)
                \<and> written (handleClusteringGet a) =
                    [JCluster \<lparr>ClusterName_r = ClusterName a,
                       NumberOfLockedTargets =
                         sum_list (map (\<lambda>k. length (locked_by instanceNodes k))
                           (sorted_list_of_fset (fmdom instanceNodes))),
                       Leader = leader,
                       Members = map (member_of leader instanceNodes) services\<rparr>]
                \<and> written (handleClusteringMembersGet a) =
                    [JMembers (map (member_of leader instanceNodes) services)]
                \<and> written (handleClusteringLeaderGet a) =
                    [JMembers
                      [case find (\<lambda>s. TrimSuffix (ID s) ''-api'' = leader) services of
                         None \<Rightarrow> \<lparr>Name_m = [], APIEndpoint = [], IsLeader = False,
                                   NumberOfLockedTargets_m = 0, LockedTargets = []\<rparr>
                       | Some s \<Rightarrow> (member_of leader instanceNodes s)\<lparr>IsLeader := True\<rparr>]]"
    by blast
qed

text \<open>
  The cluster of two instances: with the services or the locks not listed, the status 500
  and the error; with all three queries answered, the status 200 and the two members.
\<close>

theorem cluster_views_all_or_error_witness:
  "handleClusteringGet app_services_down
     = \<lparr>status = Some 500, written = [JErrors [''connection refused'']]\<rparr>
   \<and> handleClusteringMembersGet app_locks_down
     = \<lparr>status = Some 500, written = [JErrors [''connection refused'']]\<rparr>
   \<and> status_code (handleClusteringGet app_cluster) = 200
   \<and> written (handleClusteringMembersGet app_cluster)
     = [JMembers
         [\<lparr>Name_m = ''gnmic1'', APIEndpoint = ''https://gnmic1:7890'', IsLeader = True,
           NumberOfLockedTargets_m = 2, LockedTargets = [''leaf1'', ''leaf2'']\<rparr>,
          \<lparr>Name_m = ''gnmic2'', APIEndpoint = ''http://gnmic2:7890'', IsLeader = False,
           NumberOfLockedTargets_m = 1, LockedTargets = [''spine1'']\<rparr>]]"
proof -
  let ?m = "fmupd ''gnmic/cluster1/leader'' ''gnmic1'' fmempty"
  let ?svcs = "[\<lparr>ID = ''gnmic1-api'', Address_s = ''gnmic1:7890'', Tags_s = [''protocol=https'']\<rparr>,
        \<lparr>ID = ''gnmic2-api'', Address_s = ''gnmic2:7890'', Tags_s = []\<rparr>]"
  let ?nodes = "fmupd ''gnmic1'' [''leaf1'', ''leaf2''] (fmupd ''gnmic2'' [''spine1''] fmempty)"
  have e: "error_response 500 [''connection refused'']
      = \<lparr>status = Some 500, written = [JErrors [''connection refused'']]\<rparr>"
    by (simp add: error_response_def Write_def WriteHeader_def new_writer_def)
  have d: "Clustering app_services_down \<noteq> None"
    "locker_List app_services_down (''gnmic/'' @ ClusterName app_services_down @ ''/leader'') = Inr ?m"
    "locker_GetServices app_services_down (ClusterName app_services_down @ ''-gnmic-api'') []
       = Inl ''connection refused''"
    by (simp_all add: app_services_down_def app_cluster_def app_follower_def)
  have l: "Clustering app_locks_down \<noteq> None"
    "locker_List app_locks_down (''gnmic/'' @ ClusterName app_locks_down @ ''/leader'') = Inr ?m"
    "locker_GetServices app_locks_down (ClusterName app_locks_down @ ''-gnmic-api'') [] = Inr ?svcs"
    "getInstanceToTargetsMapping app_locks_down = Inl ''connection refused''"
    by (simp_all add: app_locks_down_def app_cluster_def app_follower_def)
  have c: "Clustering app_cluster \<noteq> None"
    "locker_List app_cluster (''gnmic/'' @ ClusterName app_cluster @ ''/leader'') = Inr ?m"
    "locker_GetServices app_cluster (ClusterName app_cluster @ ''-gnmic-api'') [] = Inr ?svcs"
    "getInstanceToTargetsMapping app_cluster = Inr ?nodes"
    "json_error app_cluster = (\<lambda>b. None)"
    "ClusterName app_cluster = ''cluster1''"
    by (simp_all add: app_cluster_def app_follower_def)
  have m: "map (member_of ''gnmic1'' ?nodes) ?svcs =
         [\<lparr>Name_m = ''gnmic1'', APIEndpoint = ''https://gnmic1:7890'', IsLeader = True,
           NumberOfLockedTargets_m = 2, LockedTargets = [''leaf1'', ''leaf2'']\<rparr>,
          \<lparr>Name_m = ''gnmic2'', APIEndpoint = ''http://gnmic2:7890'', IsLeader = False,
           NumberOfLockedTargets_m = 1, LockedTargets = [''spine1'']\<rparr>]"
    by (simp add: member_of_def TrimSuffix_def TrimPrefix_def scheme_of_def locked_by_def
        suffix_to_prefix)
  from cluster_views_all_or_error[OF d(1,2), of "''connection refused''"] d(3) e
  have 1: "handleClusteringGet app_services_down
     = \<lparr>status = Some 500, written = [JErrors [''connection refused'']]\<rparr>"
    by simp
  from cluster_views_all_or_error[OF l(1,2), of "''connection refused''"] l(3,4) e
  have 2: "handleClusteringMembersGet app_locks_down
     = \<lparr>status = Some 500, written = [JErrors [''connection refused'']]\<rparr>"
    by simp
  from cluster_views_all_or_error[OF c(1,2), of _ ?svcs ?nodes] c(3,4,5)
  have 3: "status_code (handleClusteringGet app_cluster) = 200"
    and 4: "written (handleClusteringMembersGet app_cluster)
        = [JMembers (map (member_of ''gnmic1'' ?nodes) ?svcs)]"
    by (simp_all add: c(6))
  from 1 2 3 4 show ?thesis by (simp only: m)
qed

text \<open>
  Claim C5 as stated fails: when the listing of the services fails, or that of the target
  locks, the views answer with the status 500 and the error alone, not with the status
  200 and the part of the view that is known.
\<close>

theorem cluster_view_fails_counterexample:
  "status_code (handleClusteringGet app_services_down) = 500
   \<and> written (handleClusteringGet app_services_down) = [JErrors [''connection refused'']]
   \<and> status_code (handleClusteringMembersGet app_services_down) = 500
   \<and> written (handleClusteringMembersGet app_services_down) = [JErrors [''connection refused'']]
   \<and> status_code (handleClusteringLeaderGet app_locks_down) = 500
   \<and> written (handleClusteringLeaderGet app_locks_down) = [JErrors [''connection refused'']]"
  by (simp add: handleClusteringGet_def handleClusteringMembersGet_def
      handleClusteringLeaderGet_def cluster_queries_def getLeaderName_def
      app_services_down_def app_locks_down_def app_cluster_def app_follower_def
      error_response_def status_code_def Write_def WriteHeader_def new_writer_def)

end
